theory Spec2Isabelle
  imports Complex_Main "HOL-Library.Sublist"
begin

section \<open>Values of the shell\<close>

text \<open>
  The script runs inside the database shell. The values it meets in a document are the
  JavaScript primitives, arrays, plain keyed objects and the shell's wrapper objects
  (\<open>Date\<close>, \<open>NumberLong\<close>, \<open>ObjectId\<close>, \<open>BinData\<close>). A plain object is a list of
  properties in the order \<open>for (key in obj)\<close> and \<open>Object.keys(obj)\<close> enumerate them.
  The payloads of numbers and wrappers are carried along but never inspected by the code.
  A document of the cursor is such a plain object: its prototype is \<open>Object.prototype\<close>
  and its fields are its own enumerable properties.
\<close>

datatype jsval =
    JUndefined
  | JNull
  | JBool bool
  | JNum real
  | JStr string
  | JArr "jsval list"
  | JObj "(string \<times> jsval) list"
  | JDate int
  | JNumberLong int
  | JObjectId string
  | JBinData nat string

text \<open>A plain object whose property values have type \<open>'a\<close>, in enumeration order.\<close>

type_synonym 'a obj = "(string \<times> 'a) list"

subsection \<open>Type Classifier\<close>

text \<open>\<open>typeof thing\<close>.\<close>

fun js_typeof :: "jsval \<Rightarrow> string" where
  "js_typeof JUndefined = ''undefined''"
| "js_typeof (JBool b) = ''boolean''"
| "js_typeof (JNum x) = ''number''"
| "js_typeof (JStr s) = ''string''"
| "js_typeof v = ''object''"

text \<open>\<open>String.prototype.toUpperCase\<close> on one character (ASCII letters).\<close>

definition js_toUpperCase :: "char \<Rightarrow> char" where
  "js_toUpperCase c =
     (case map_of (zip ''abcdefghijklmnopqrstuvwxyz'' ''ABCDEFGHIJKLMNOPQRSTUVWXYZ'') c of
        None \<Rightarrow> c
      | Some u \<Rightarrow> u)"

fun isArray :: "jsval \<Rightarrow> bool" where
  "isArray (JArr xs) = True"
| "isArray v = False"

fun isDate :: "jsval \<Rightarrow> bool" where
  "isDate (JDate t) = True"
| "isDate v = False"

fun isNumberLong :: "jsval \<Rightarrow> bool" where
  "isNumberLong (JNumberLong n) = True"
| "isNumberLong v = False"

fun isObjectId :: "jsval \<Rightarrow> bool" where
  "isObjectId (JObjectId h) = True"
| "isObjectId v = False"

fun isBinData :: "jsval \<Rightarrow> bool" where
  "isBinData (JBinData t b) = True"
| "isBinData v = False"

text \<open>
  \<open>varietyTypeOf\<close>: the branches in the order of the source. A value that is not an
  object is named by \<open>typeof\<close> with its first letter in upper case.
\<close>

definition varietyTypeOf :: "jsval \<Rightarrow> string" where
  "varietyTypeOf thing =
     (if js_typeof thing = ''undefined'' then ''undefined''
      else if js_typeof thing \<noteq> ''object'' then
        (let typeofThing = js_typeof thing
         in js_toUpperCase (hd typeofThing) # tl typeofThing)
      else if isArray thing then ''Array''
      else if thing = JNull then ''null''
      else if isDate thing then ''Date''
      else if isNumberLong thing then ''NumberLong''
      else if isObjectId thing then ''ObjectId''
      else if isBinData thing then ''BinData''
      else ''Object'')"

section \<open>Strings, numbers and plain objects of the host language\<close>

text \<open>\<open>\d\<close> of a regular expression: an ASCII digit.\<close>

definition is_digit :: "char \<Rightarrow> bool" where
  "is_digit c = (c \<in> set ''0123456789'')"

text \<open>
  \<open>Number.prototype.toString\<close> on a non-negative integer, which is also the property
  name of an array index: the decimal digits, most significant first.
\<close>

fun show_nat :: "nat \<Rightarrow> string" where
  "show_nat n =
     (if n < 10 then [''0123456789'' ! n]
      else show_nat (n div 10) @ [''0123456789'' ! (n mod 10)])"

declare show_nat.simps [simp del]

text \<open>The number a string of decimal digits denotes.\<close>

definition digit_val :: "char \<Rightarrow> int" where
  "digit_val c =
     (case map_of (zip ''0123456789'' [0, 1, 2, 3, 4, 5, 6, 7, 8, 9]) c of
        None \<Rightarrow> 0
      | Some d \<Rightarrow> d)"

definition read_num :: "string \<Rightarrow> int" where
  "read_num s = foldl (\<lambda>a c. 10 * a + digit_val c) 0 s"

text \<open>
  \<open>Array.prototype.join\<close> on an array of strings; \<open>toString\<close> of such an array, and
  its comparison with a string by \<open>==\<close>, use the separator \<open>,\<close>.
\<close>

fun js_join :: "string \<Rightarrow> string list \<Rightarrow> string" where
  "js_join sep [] = []"
| "js_join sep [x] = x"
| "js_join sep (x # y # ys) = x @ sep @ js_join sep (y # ys)"

definition starts_with :: "string \<Rightarrow> string \<Rightarrow> bool" where
  "starts_with p s = (take (length p) s = p)"

text \<open>
  Own properties. \<open>obj_get\<close> is the own property \<open>k\<close> of the object (\<open>None\<close> when it
  has none), \<open>obj_has\<close> is \<open>Object.prototype.hasOwnProperty.call(obj, k)\<close>, and
  \<open>obj_put\<close> is an assignment \<open>obj[k] = v\<close> that sets an own property.
  An assignment to an existing property keeps its place in the enumeration order; a
  new property whose name is an array index (a canonical decimal below \<open>2^32 - 1\<close>) is
  enumerated among the other index names in ascending numeric order, before every
  other name; any other new property is enumerated last.
\<close>

definition obj_get :: "'a obj \<Rightarrow> string \<Rightarrow> 'a option" where
  "obj_get ob k = map_of ob k"

definition obj_has :: "'a obj \<Rightarrow> string \<Rightarrow> bool" where
  "obj_has ob k = (map_of ob k \<noteq> None)"

definition is_array_index :: "string \<Rightarrow> bool" where
  "is_array_index k =
     (k \<noteq> [] \<and> list_all is_digit k \<and> (k = ''0'' \<or> hd k \<noteq> CHR ''0'')
      \<and> read_num k < 4294967295)"

fun obj_replace :: "string \<Rightarrow> 'a \<Rightarrow> 'a obj \<Rightarrow> 'a obj" where
  "obj_replace k v [] = []"
| "obj_replace k v ((k', v') # ps) =
     (if k' = k then (k, v) # ps else (k', v') # obj_replace k v ps)"

fun obj_insert_index :: "string \<Rightarrow> 'a \<Rightarrow> 'a obj \<Rightarrow> 'a obj" where
  "obj_insert_index k v [] = [(k, v)]"
| "obj_insert_index k v ((k', v') # ps) =
     (if is_array_index k' \<and> read_num k' < read_num k
      then (k', v') # obj_insert_index k v ps
      else (k, v) # (k', v') # ps)"

definition obj_put :: "'a obj \<Rightarrow> string \<Rightarrow> 'a \<Rightarrow> 'a obj" where
  "obj_put ob k v =
     (if obj_has ob k then obj_replace k v ob
      else if is_array_index k then obj_insert_index k v ob
      else ob @ [(k, v)])"

text \<open>
  \<open>for (key in v)\<close>, restricted to own properties: the properties of a plain object,
  the indices of an array in ascending order, and nothing for \<open>null\<close>. The script
  enumerates only documents and values it has classified as structured.
\<close>

fun for_in :: "jsval \<Rightarrow> (string \<times> jsval) list" where
  "for_in (JObj kvs) = kvs"
| "for_in (JArr xs) = zip (map show_nat [0 ..< length xs]) xs"
| "for_in v = []"


subsection \<open>Properties inherited from \<open>Object.prototype\<close>\<close>

text \<open>
  Every plain object inherits the members of \<open>Object.prototype\<close>: the functions
  named below, which are those of the language standard, and the accessor
  \<open>__proto__\<close>. (An engine that adds members of its own, as old versions of
  SpiderMonkey do with \<open>toSource\<close>, \<open>watch\<close> and \<open>unwatch\<close>, treats their names in
  the same way.)
\<close>

definition Object_prototype :: "string list" where
  "Object_prototype =
     [''constructor'', ''toString'', ''toLocaleString'', ''valueOf'', ''hasOwnProperty'',
      ''isPrototypeOf'', ''propertyIsEnumerable'', ''__defineGetter__'',
      ''__defineSetter__'', ''__lookupGetter__'', ''__lookupSetter__'']"

text \<open>
  What a read \<open>obj[k]\<close> of a plain object finds: the own property, else under the name
  \<open>__proto__\<close> the object \<open>Object.prototype\<close> itself, else a function that is a member
  of \<open>Object.prototype\<close>, else \<open>undefined\<close>. The test \<open>k in obj\<close> fails in the last
  case only.
\<close>

datatype 'a property = Own 'a | Prototype | Member | Undefined

definition js_get :: "'a obj \<Rightarrow> string \<Rightarrow> 'a property" where
  "js_get ob k =
     (case obj_get ob k of
        Some v \<Rightarrow> Own v
      | None \<Rightarrow>
          if k = ''__proto__'' then Prototype
          else if k \<in> set Object_prototype then Member
          else Undefined)"

text \<open>
  How a call ends when it gives no result: by a \<open>TypeError\<close>, by a message thrown, or
  at a step that the model does not follow (\<open>OutOfModel\<close>). These steps are: building
  a regular expression from an escape marker that holds a character special in regular
  expressions; an assignment that replaces the prototype of an object of the script
  (an object or \<open>null\<close> assigned to \<open>__proto__\<close>) or that writes to \<open>Object.prototype\<close>
  itself, after which every object inherits other properties; and a counter that is
  set to a text. Nothing is stated about a run that ends at such a step.
\<close>

datatype stop = TypeError | Message string | OutOfModel

section \<open>Configuration Loader\<close>

text \<open>
  \<open>readConfig\<close> turns the list \<open>excludeSubkeys\<close> into a set-like object by a \<open>reduce\<close>
  that stores \<open>true\<close> under each item followed by a dot. The other options the model
  needs (\<open>arrayEscape\<close>, \<open>maxDepth\<close>) are passed to the functions that read them.
\<close>

definition excludeSubkeys_set :: "string list \<Rightarrow> bool obj" where
  "excludeSubkeys_set items = fold (\<lambda>item result. obj_put result (item @ ''.'') True) items []"

section \<open>Document Flattener, flat variant\<close>

text \<open>
  Two regular expressions are built from the escape marker: in \<open>serializeDoc\<close>
  \<open>new RegExp('\\.' + arrayEscape + '\\d+' + arrayEscape + '\\.', 'g')\<close>, and in
  \<open>analyseDocument\<close> the same without the last \<open>'\\.'\<close>. The marker is put into the
  pattern as it is. When none of its characters is special in a regular expression
  (\<open>regex_plain\<close>), each of them matches itself and the expression is
  \<open>MarkerRegExp marker tail\<close>: a dot, the marker, one or more digits, the marker, and
  the text \<open>tail\<close> (a dot, or nothing). For any other marker the pattern means something
  else or is refused with a \<open>SyntaxError\<close>; the model stops there.
\<close>

definition regex_plain :: "string \<Rightarrow> bool" where
  "regex_plain marker = list_all (\<lambda>c. c \<notin> set (CHR 0x5C # ''^$.|?*+()[]{}'')) marker"

datatype regexp = MarkerRegExp string string

definition new_RegExp :: "string \<Rightarrow> string \<Rightarrow> stop + regexp" where
  "new_RegExp marker tail =
     (if regex_plain marker then Inr (MarkerRegExp marker tail) else Inl OutOfModel)"

text \<open>
  \<open>regexp_match rx s\<close> matches the expression at the start of \<open>s\<close> and gives what
  follows the match: the digits are the longest run that still leaves the marker and
  the tail behind it. \<open>js_replace\<close> is \<open>String.prototype.replace\<close> with such an
  expression and the flag \<open>g\<close>: from left to right, every match that does not overlap
  an earlier one becomes \<open>repl\<close>.
\<close>

fun regexp_match :: "regexp \<Rightarrow> string \<Rightarrow> string option" where
  "regexp_match (MarkerRegExp esc tail) s =
     (if starts_with (''.'' @ esc) s then
        (let t = drop (1 + length esc) s;
             n = length (takeWhile is_digit t)
         in case filter (\<lambda>k. starts_with (esc @ tail) (drop k t)) (rev [1 ..< Suc n]) of
              [] \<Rightarrow> None
            | k # ks \<Rightarrow> Some (drop (k + length esc + length tail) t))
      else None)"

lemma regexp_match_shorter:
  "regexp_match rx s = Some r \<Longrightarrow> length r < length s"
  by (cases rx; cases s)
     (auto simp: starts_with_def Let_def split: if_splits list.splits)

function js_replace :: "regexp \<Rightarrow> string \<Rightarrow> string \<Rightarrow> string" where
  "js_replace rx repl [] = []"
| "js_replace rx repl (c # cs) =
     (case regexp_match rx (c # cs) of
        Some r \<Rightarrow> repl @ js_replace rx repl r
      | None \<Rightarrow> c # js_replace rx repl cs)"
  by pat_completeness auto
termination
  by (relation "measure (\<lambda>(rx, repl, s). length s)")
     (auto dest: regexp_match_shorter)

text \<open>
  \<open>isHash\<close> of \<open>serializeDoc\<close>: an array or anything whose \<open>typeof\<close> is \<open>object\<close>
  (\<open>null\<close> included), the four wrapper kinds apart.
\<close>

definition isHash :: "jsval \<Rightarrow> bool" where
  "isHash v =
     (let isArray = isArray v;
          isObject = (js_typeof v = ''object'');
          specialObject = (isDate v \<or> isObjectId v \<or> isBinData v \<or> isNumberLong v)
      in \<not> specialObject \<and> (isArray \<or> isObject))"

lemma for_in_size:
  "(\<Sum>p\<leftarrow>for_in v. 2 * size (snd p) + 2) \<le> 2 * size v"
proof (cases v)
  case (JArr xs)
  have "(\<Sum>p\<leftarrow>zip ks xs. 2 * size (snd p) + 2) \<le> 2 * size_list size xs" for ks :: "string list"
  proof (induction xs arbitrary: ks)
    case Nil
    then show ?case by simp
  next
    case (Cons x xs)
    then show ?case by (cases ks) (auto intro: le_SucI)
  qed
  from this [of "map show_nat [0 ..< length xs]"] JArr show ?thesis by simp
next
  case (JObj kvs)
  have "(\<Sum>p\<leftarrow>kvs. 2 * size (snd p) + 2) \<le> 2 * size_list (size_prod (\<lambda>_. 0) size) kvs"
    by (induction kvs) auto
  with JObj show ?thesis by simp
qed simp_all

text \<open>
  The inner function \<open>serialize\<close> of \<open>serializeDoc\<close>, with the object \<open>result\<close> it
  assigns to passed in and returned. \<open>serialize_loop\<close> is the body of its \<open>for\<close> loop
  over the properties not yet visited; \<open>isArr\<close> is \<open>Array.isArray(document)\<close>, and
  \<open>shadowed\<close> tells that the document has an own field named \<open>hasOwnProperty\<close>: then
  \<open>document.hasOwnProperty\<close> is the value of that field, not a function, and the call
  \<open>document.hasOwnProperty(key)\<close> raises a \<open>TypeError\<close>. An assignment to the name
  \<open>__proto__\<close> sets no property: a value that is not an object is ignored, an object or
  \<open>null\<close> becomes the prototype of \<open>result\<close>.
\<close>

function serialize ::
    "bool obj \<Rightarrow> string \<Rightarrow> regexp \<Rightarrow> jsval \<Rightarrow> string \<Rightarrow> int \<Rightarrow> jsval obj \<Rightarrow> stop + jsval obj"
  and serialize_loop ::
    "bool obj \<Rightarrow> string \<Rightarrow> regexp \<Rightarrow> bool \<Rightarrow> bool \<Rightarrow> (string \<times> jsval) list \<Rightarrow> string \<Rightarrow> int
       \<Rightarrow> jsval obj \<Rightarrow> stop + jsval obj" where
  "serialize excludeSubkeys arrayEscape arrayRegex document parentKey maxDepth result =
     (if obj_has excludeSubkeys (js_replace arrayRegex ''.'' parentKey) then Inr result
      else serialize_loop excludeSubkeys arrayEscape arrayRegex (isArray document)
             (obj_has (for_in document) ''hasOwnProperty'') (for_in document)
             parentKey maxDepth result)"
| "serialize_loop excludeSubkeys arrayEscape arrayRegex isArr shadowed [] parentKey maxDepth result =
     Inr result"
| "serialize_loop excludeSubkeys arrayEscape arrayRegex isArr shadowed ((key0, value) # rest)
       parentKey maxDepth result =
     (if shadowed then Inl TypeError
      else
        (let key = (if isArr then arrayEscape @ key0 @ arrayEscape else key0)
         in if parentKey @ key = ''__proto__'' \<and> js_typeof value = ''object'' then Inl OutOfModel
            else
              (let result1 = (if parentKey @ key = ''__proto__'' then result
                              else obj_put result (parentKey @ key) value)
               in if isHash value \<and> maxDepth > 1 then
                    (case serialize excludeSubkeys arrayEscape arrayRegex value
                            (parentKey @ key @ ''.'') (maxDepth - 1) result1 of
                       Inl err \<Rightarrow> Inl err
                     | Inr result2 \<Rightarrow>
                         serialize_loop excludeSubkeys arrayEscape arrayRegex isArr shadowed rest
                           parentKey maxDepth result2)
                  else serialize_loop excludeSubkeys arrayEscape arrayRegex isArr shadowed rest
                         parentKey maxDepth result1)))"
  by pat_completeness auto
termination
proof (relation "measure (\<lambda>x. case x of
          Inl (ex, esc, rx, document, pk, d, res) \<Rightarrow> 2 * size document + 2
        | Inr (ex, esc, rx, isArr, sh, props, pk, d, res) \<Rightarrow>
            (\<Sum>p\<leftarrow>props. 2 * size (snd p) + 2) + 1)",
       goal_cases)
  case (2 excludeSubkeys arrayEscape arrayRegex document parentKey maxDepth result)
  show ?case using for_in_size [of document] by simp
qed simp_all

text \<open>
  \<open>serializeDoc\<close> builds the regular expression, then flattens the document into a new
  object.
\<close>

definition serializeDoc :: "string \<Rightarrow> jsval obj \<Rightarrow> int \<Rightarrow> bool obj \<Rightarrow> stop + jsval obj" where
  "serializeDoc arrayEscape doc maxDepth excludeSubkeys =
     (case new_RegExp arrayEscape ''.'' of
        Inl err \<Rightarrow> Inl err
      | Inr arrayRegex \<Rightarrow>
          serialize excludeSubkeys arrayEscape arrayRegex (JObj doc) '''' maxDepth [])"

section \<open>Document Flattener, shape-preserving variant\<close>

text \<open>
  \<open>serializeDocterark\<close> copies the own properties of the document into a new object,
  under \<open>parentKey + key\<close> with the empty \<open>parentKey\<close>; it does not recurse.
  \<open>serializeterark_loop\<close> is the body of the loop of its inner function, which makes
  the same call \<open>document.hasOwnProperty(key)\<close> and the same assignment as \<open>serialize\<close>.
\<close>

fun serializeterark_loop ::
  "bool \<Rightarrow> (string \<times> jsval) list \<Rightarrow> string \<Rightarrow> jsval obj \<Rightarrow> stop + jsval obj" where
  "serializeterark_loop shadowed [] parentKey result = Inr result"
| "serializeterark_loop shadowed ((key, value) # rest) parentKey result =
     (if shadowed then Inl TypeError
      else if parentKey @ key = ''__proto__'' \<and> js_typeof value = ''object'' then Inl OutOfModel
      else serializeterark_loop shadowed rest parentKey
             (if parentKey @ key = ''__proto__'' then result
              else obj_put result (parentKey @ key) value))"

definition serializeterark :: "jsval \<Rightarrow> string \<Rightarrow> int \<Rightarrow> jsval obj \<Rightarrow> stop + jsval obj" where
  "serializeterark document parentKey maxDepth result =
     serializeterark_loop (obj_has (for_in document) ''hasOwnProperty'') (for_in document)
       parentKey result"

definition serializeDocterark :: "jsval obj \<Rightarrow> int \<Rightarrow> stop + jsval obj" where
  "serializeDocterark doc maxDepth = serializeterark (JObj doc) '''' maxDepth []"

section \<open>Per-Document Analyzer, shape-preserving variant\<close>

text \<open>
  What the analyzer stores under a type tag: \<open>true\<close>, or an object that maps the
  subfields of the value to objects of the same kind (keyed by type tag).
\<close>

datatype marker = MTrue | MTree "(string \<times> (string \<times> marker) list) list"

type_synonym typeset = "marker obj"

type_synonym shape = "typeset obj"

text \<open>\<open>key.replace(/\.\d+/g, '.XX')\<close>.\<close>

function replace_dot_digits :: "string \<Rightarrow> string" where
  "replace_dot_digits [] = []"
| "replace_dot_digits (c # cs) =
     (if c = CHR ''.'' \<and> takeWhile is_digit cs \<noteq> []
      then ''.XX'' @ replace_dot_digits (dropWhile is_digit cs)
      else c # replace_dot_digits cs)"
  by pat_completeness auto
termination
  by (relation "measure length") (auto intro: le_imp_less_Suc length_dropWhile_le)

text \<open>
  \<open>serializeAValue\<close> fills \<open>pararesult\<close>, which is passed in and returned;
  \<open>serializeAValue_loop\<close> is the body of its \<open>for\<close> loop. For each subfield the entry
  \<open>pararesult[key]\<close> is replaced by a new object with the one type tag of the subfield.
  For a subfield named \<open>__proto__\<close> the assignment \<open>pararesult[key] = {}\<close> replaces the
  prototype of \<open>pararesult\<close>.
\<close>

function serializeAValue :: "jsval \<Rightarrow> int \<Rightarrow> shape \<Rightarrow> stop + shape"
  and serializeAValue_loop :: "(string \<times> jsval) list \<Rightarrow> int \<Rightarrow> shape \<Rightarrow> stop + shape" where
  "serializeAValue value maxDepth pararesult =
     serializeAValue_loop (for_in value) maxDepth pararesult"
| "serializeAValue_loop [] maxDepth pararesult = Inr pararesult"
| "serializeAValue_loop ((key, tempv) # rest) maxDepth pararesult =
     (if key = ''__proto__'' then Inl OutOfModel
      else
        (let type = varietyTypeOf tempv
         in if type = ''Object'' \<and> maxDepth > 1 then
              (case serializeAValue tempv (maxDepth - 1) [] of
                 Inl err \<Rightarrow> Inl err
               | Inr sub \<Rightarrow>
                   serializeAValue_loop rest maxDepth
                     (obj_put pararesult key (obj_put [] type (MTree sub))))
            else serializeAValue_loop rest maxDepth
                   (obj_put pararesult key (obj_put [] type MTrue))))"
  by pat_completeness auto
termination
proof (relation "measure (\<lambda>x. case x of
          Inl (v, d, res) \<Rightarrow> 2 * size v + 2
        | Inr (props, d, res) \<Rightarrow> (\<Sum>p\<leftarrow>props. 2 * size (snd p) + 2) + 1)",
       goal_cases)
  case (2 v maxDepth pararesult)
  show ?case using for_in_size [of v] by simp
qed simp_all

text \<open>
  The assignment \<open>result[key][type] = x\<close> of the two analyzers. When \<open>result\<close> has no
  own property \<open>key\<close> but inherits a function of that name, the tag is set on that
  function and \<open>result\<close> stays as it is; under the name \<open>__proto__\<close> the tag is set on
  \<open>Object.prototype\<close>.
\<close>

definition assign_tag :: "'a obj obj \<Rightarrow> string \<Rightarrow> string \<Rightarrow> 'a \<Rightarrow> stop + 'a obj obj" where
  "assign_tag result key type x =
     (case js_get result key of
        Own tags \<Rightarrow> Inr (obj_put result key (obj_put tags type x))
      | Prototype \<Rightarrow> Inl OutOfModel
      | Member \<Rightarrow> Inr result
      | Undefined \<Rightarrow> Inl TypeError)"

text \<open>
  \<open>analyseDocumentterark\<close> creates one object \<open>recurresult\<close> before its loop, passes it
  to \<open>serializeAValue\<close> for every field classified as \<open>Object\<close>, and stores that same
  object under \<open>result[key]['Object']\<close>. The store of the loop is therefore the pair of
  \<open>result\<close>, whose entries hold \<open>true\<close> or a reference to \<open>recurresult\<close>, and the
  current content of \<open>recurresult\<close>. The caller reads the returned object after the
  loop, when every reference shows the final content. The test
  \<open>typeof result[key] === 'undefined'\<close> reads through the prototype.
\<close>

datatype slot = STrue | SRecurresult

fun analyse_loop ::
  "jsval obj \<Rightarrow> int \<Rightarrow> slot obj obj \<Rightarrow> shape \<Rightarrow> stop + (slot obj obj \<times> shape)" where
  "analyse_loop [] maxDepth result recurresult = Inr (result, recurresult)"
| "analyse_loop ((key0, value) # rest) maxDepth result recurresult =
     (let key = replace_dot_digits key0;
          result1 = (if js_get result key = Undefined then obj_put result key [] else result);
          type = varietyTypeOf value
      in if type = ''Object'' then
           (case serializeAValue value maxDepth recurresult of
              Inl err \<Rightarrow> Inl err
            | Inr recurresult1 \<Rightarrow>
                (case assign_tag result1 key type SRecurresult of
                   Inl err \<Rightarrow> Inl err
                 | Inr result2 \<Rightarrow> analyse_loop rest maxDepth result2 recurresult1))
         else
           (case assign_tag result1 key type STrue of
              Inl err \<Rightarrow> Inl err
            | Inr result2 \<Rightarrow> analyse_loop rest maxDepth result2 recurresult))"

definition deref :: "shape \<Rightarrow> slot \<Rightarrow> marker" where
  "deref recurresult s = (case s of STrue \<Rightarrow> MTrue | SRecurresult \<Rightarrow> MTree recurresult)"

definition analyseDocumentterark :: "jsval obj \<Rightarrow> int \<Rightarrow> stop + shape" where
  "analyseDocumentterark document maxDepth =
     (case analyse_loop document maxDepth [] [] of
        Inl err \<Rightarrow> Inl err
      | Inr (result, recurresult) \<Rightarrow>
          Inr (map (\<lambda>(key, tags). (key, map (\<lambda>(type, s). (type, deref recurresult s)) tags))
                 result))"

section \<open>Aggregate Merger, shape-preserving variant\<close>

record entry =
  types :: "nat obj"
  totalOccurrences :: nat
  value' :: "typeset option"

text \<open>
  The loop \<open>for (var type in docResultstrc[key])\<close> over an existing entry's counters.
  The test \<open>type in existing.types\<close> holds for an inherited name too; the counter is
  then set to the text of the inherited member followed by \<open>1\<close>, except under the name
  \<open>__proto__\<close>, where the text assigned is ignored.
\<close>

fun merge_types :: "string list \<Rightarrow> nat obj \<Rightarrow> stop + nat obj" where
  "merge_types [] counts = Inr counts"
| "merge_types (type # rest) counts =
     (case js_get counts type of
        Own n \<Rightarrow> merge_types rest (obj_put counts type (n + 1))
      | Prototype \<Rightarrow> merge_types rest counts
      | Member \<Rightarrow> Inl OutOfModel
      | Undefined \<Rightarrow> merge_types rest (obj_put counts type 1))"

text \<open>
  The loop \<open>for (var newType in ...) types[newType] = 1\<close> of a new entry. The number
  assigned to the name \<open>__proto__\<close> is ignored.
\<close>

definition new_types :: "string list \<Rightarrow> nat obj" where
  "new_types tags =
     fold (\<lambda>newType types. if newType = ''__proto__'' then types else obj_put types newType 1)
       tags []"

text \<open>
  \<open>mergeDocumentterark\<close>, by recursion over the keys of the document's analysis not yet
  visited. The member \<open>value\<close> is written only where a new entry is created. The test
  \<open>key in interimResultsstrc\<close> holds for an inherited name too: \<open>existing\<close> is then a
  member of \<open>Object.prototype\<close> (or that object itself), which has no member \<open>types\<close>,
  so that \<open>type in existing.types\<close> raises a \<open>TypeError\<close>; when there is no tag to
  visit, \<open>totalOccurrences\<close> is set on the inherited member.
\<close>

fun mergeDocumentterark :: "shape \<Rightarrow> entry obj \<Rightarrow> stop + entry obj" where
  "mergeDocumentterark [] interimResultsstrc = Inr interimResultsstrc"
| "mergeDocumentterark ((key, tags) # rest) interimResultsstrc =
     (case js_get interimResultsstrc key of
        Own existing \<Rightarrow>
          (case merge_types (map fst tags) (types existing) of
             Inl err \<Rightarrow> Inl err
           | Inr counts \<Rightarrow>
               mergeDocumentterark rest
                 (obj_put interimResultsstrc key
                    (existing\<lparr>types := counts,
                              totalOccurrences := totalOccurrences existing + 1\<rparr>)))
      | Prototype \<Rightarrow> (if tags = [] then Inl OutOfModel else Inl TypeError)
      | Member \<Rightarrow>
          (if tags = [] then mergeDocumentterark rest interimResultsstrc else Inl TypeError)
      | Undefined \<Rightarrow>
          (let types = new_types (map fst tags);
               temp = map fst tags
           in if js_join '','' temp = ''Object''
              then mergeDocumentterark rest
                     (obj_put interimResultsstrc key
                        \<lparr>types = types, totalOccurrences = 1, value' = Some tags\<rparr>)
              else mergeDocumentterark rest
                     (obj_put interimResultsstrc key
                        \<lparr>types = types, totalOccurrences = 1, value' = None\<rparr>)))"

text \<open>
  \<open>reduceDocumentsterark\<close>, the callback of the fold; \<open>docResultterark\<close> is its local
  variable of that name, the analysis of one document.
\<close>

definition docResultterark :: "int \<Rightarrow> jsval obj \<Rightarrow> stop + shape" where
  "docResultterark maxDepth object =
     (case serializeDocterark object maxDepth of
        Inl err \<Rightarrow> Inl err
      | Inr flat \<Rightarrow> analyseDocumentterark flat maxDepth)"

definition reduceDocumentsterark :: "int \<Rightarrow> entry obj \<Rightarrow> jsval obj \<Rightarrow> stop + entry obj" where
  "reduceDocumentsterark maxDepth accumulatorterark object =
     (case docResultterark maxDepth object of
        Inl err \<Rightarrow> Inl err
      | Inr docResult \<Rightarrow> mergeDocumentterark docResult accumulatorterark)"

text \<open>
  \<open>DBQuery.prototype.reduce\<close>: the callback is applied to the documents of the cursor
  in order, each time with the result of the call before.
\<close>

fun cursor_reduce :: "('a \<Rightarrow> 'b \<Rightarrow> stop + 'a) \<Rightarrow> 'a \<Rightarrow> 'b list \<Rightarrow> stop + 'a" where
  "cursor_reduce callback result [] = Inr result"
| "cursor_reduce callback result (obj # rest) =
     (case callback result obj of
        Inl err \<Rightarrow> Inl err
      | Inr result1 \<Rightarrow> cursor_reduce callback result1 rest)"


section \<open>Schema Converter\<close>

text \<open>
  A lookup in one of the two tables gives a string, \<open>undefined\<close>, or for an inherited
  name the member of \<open>Object.prototype\<close> of that name. A column is the object the
  converter builds: \<open>type\<close>, and where the code writes them \<open>length\<close>, \<open>mongoType\<close>
  (its value may be \<open>undefined\<close>) and \<open>nested\<close>.
\<close>

datatype tval = TUndefined | TStr string | TMember string

datatype column =
  Column (col_type: tval) (col_length: "nat option") (mongoType: "tval option")
    (nested: "(string \<times> column) list option")

definition table_lookup :: "string obj \<Rightarrow> string \<Rightarrow> tval" where
  "table_lookup TypeToType type =
     (case js_get TypeToType type of
        Own code \<Rightarrow> TStr code
      | Prototype \<Rightarrow> TMember type
      | Member \<Rightarrow> TMember type
      | Undefined \<Rightarrow> TUndefined)"

definition getKeyType :: "string \<Rightarrow> tval" where
  "getKeyType type =
     table_lookup
       [(''ObjectId'', ''Fixed''), (''Boolean'', ''Uint08''), (''Number'', ''Sint32''),
        (''NumberLong'', ''Sint64''), (''Double'', ''Float64''), (''Date'', ''Sint64''),
        (''Timestamp'', ''Sint64''), (''BinData'', ''CarBin''), (''Array'', ''CarBin''),
        (''Object'', ''CarBin''), (''Regex'', ''TwoStrZero''), (''String'', ''StrZero''),
        (''undefined'', ''Binary''), (''Null'', ''''), (''DBPointer'', ''StrZero''),
        (''JavaScript'', ''StrZero''), (''Symbol'', ''StrZero''),
        (''JSWithScope'', ''StrZero''), (''MinKey'', ''''), (''MaxKey'', '''')] type"

definition getMongoType :: "string \<Rightarrow> tval" where
  "getMongoType type =
     table_lookup
       [(''ObjectId'', ''oid''), (''Boolean'', ''bool''), (''Number'', ''int''),
        (''NumberLong'', ''long''), (''Double'', ''double''), (''Date'', ''date''),
        (''Timestamp'', ''timestamp''), (''BinData'', ''bindata''), (''Array'', ''array''),
        (''Object'', ''object''), (''Regex'', ''regex''), (''String'', ''string''),
        (''DBPointer'', ''string''), (''JavaScript'', ''string''), (''Symbol'', ''string''),
        (''JSWithScope'', ''string'')] type"

lemma map_of_size_le:
  "map_of tags k = Some m \<Longrightarrow> size m \<le> size_list (size_prod (\<lambda>_. 0) size) tags"
  by (induction tags) (auto split: if_splits)

text \<open>
  \<open>serializeCValue(value, pararesult)\<close> sets \<open>pararesult["nested"]\<close>; the model returns
  that member. Its argument is \<open>undefined\<close>, \<open>true\<close> or a tree of the analyzer, and a
  \<open>for\<close> loop over the first two visits nothing. \<open>serializeCValue_loop\<close> is the body of
  the loop, with the object \<open>pararesult["nested"]\<close> built so far. A column assigned to
  the name \<open>__proto__\<close> becomes the prototype of that object.
\<close>

function serializeCValue :: "marker option \<Rightarrow> stop + column obj"
  and serializeCValue_loop :: "shape \<Rightarrow> column obj \<Rightarrow> stop + column obj" where
  "serializeCValue None = Inr []"
| "serializeCValue (Some MTrue) = Inr []"
| "serializeCValue (Some (MTree tree)) = serializeCValue_loop tree []"
| "serializeCValue_loop [] nestedresult = Inr nestedresult"
| "serializeCValue_loop ((key, tempv) # rest) nestedresult =
     (let type = map fst tempv
      in if key = ''__proto__'' then Inl OutOfModel
         else if js_join '','' type = ''Object'' then
           (case serializeCValue (obj_get tempv ''Object'') of
              Inl err \<Rightarrow> Inl err
            | Inr sub \<Rightarrow>
                serializeCValue_loop rest
                  (obj_put nestedresult key
                     (Column (getKeyType (js_join '','' type)) None
                        (Some (getMongoType (js_join '','' type))) (Some sub))))
         else serializeCValue_loop rest
                (obj_put nestedresult key
                   (Column (getKeyType (js_join '','' type)) None
                      (Some (getMongoType (js_join '','' type))) None)))"
  by pat_completeness auto
termination
proof (relation "measure (\<lambda>x. case x of
          Inl None \<Rightarrow> 0
        | Inl (Some m) \<Rightarrow> 2 * size m
        | Inr (tree, res) \<Rightarrow>
            2 * size_list (size_prod (\<lambda>_. 0) (size_list (size_prod (\<lambda>_. 0) size))) tree + 1)",
       goal_cases)
  case (3 key tempv rest nestedresult x)
  show ?case
    by (cases "map_of tempv ''Object''")
       (auto simp: obj_get_def dest!: map_of_size_le)
qed simp_all

text \<open>The reserved entry \<open>{"type": "CarBin"}\<close>.\<close>

definition carbin :: column where
  "carbin = Column (TStr ''CarBin'') None None None"

text \<open>An entry of the NestedSchemaSet, \<open>{'columns': tree}\<close>.\<close>

record nested_schema =
  columns :: "column obj"

text \<open>
  The flat pipeline's entries; the converter receives their aggregate as its fourth
  argument.
\<close>

record flat_entry =
  flat_types :: "nat obj"
  flat_totalOccurrences :: nat

text \<open>
  The assignment \<open>columns[key] = column\<close>; a column assigned to the name \<open>__proto__\<close>
  becomes the prototype of \<open>columns\<close>.
\<close>

definition assign_column :: "column obj \<Rightarrow> string \<Rightarrow> column \<Rightarrow> stop + column obj" where
  "assign_column cols key c =
     (if key = ''__proto__'' then Inl OutOfModel else Inr (obj_put cols key c))"

text \<open>
  The loop of \<open>convertSchema\<close> over the entries not yet visited, with \<open>columns\<close>, the
  sink \<open>nestedschemaset\<close> and \<open>nestedindex\<close> passed in and returned. The objects
  \<open>nested\<close> and \<open>tempnestedschemaset\<close> that \<open>serializeCValue\<close> fills have the one key
  \<open>nested\<close>, which the code then reads back. Reading \<open>entry["value"]['Object']\<close> of an
  entry that has no \<open>value\<close> raises a \<open>TypeError\<close>.
\<close>

fun convertSchema_loop ::
  "entry obj \<Rightarrow> nat \<Rightarrow> column obj \<Rightarrow> nested_schema obj \<Rightarrow> nat
     \<Rightarrow> stop + (column obj \<times> nested_schema obj \<times> nat)" where
  "convertSchema_loop [] documentsCount cols nestedschemaset nestedindex =
     Inr (cols, nestedschemaset, nestedindex)"
| "convertSchema_loop ((key, e) # rest) documentsCount cols nestedschemaset nestedindex =
     (let typeKeys = js_join '','' (map fst (types e))
      in if totalOccurrences e = documentsCount then
           (if typeKeys = ''ObjectId'' then
              (case assign_column cols key
                      (Column (getKeyType typeKeys) (Some 12) (Some (getMongoType typeKeys))
                         None) of
                 Inl err \<Rightarrow> Inl err
               | Inr cols1 \<Rightarrow>
                   convertSchema_loop rest documentsCount cols1 nestedschemaset nestedindex)
            else if typeKeys = ''Object'' then
              (case value' e of
                 None \<Rightarrow> Inl TypeError
               | Some v \<Rightarrow>
                   (case serializeCValue (obj_get v ''Object'') of
                      Inl err \<Rightarrow> Inl err
                    | Inr tree \<Rightarrow>
                        (case assign_column cols key
                                (Column (getKeyType typeKeys) None
                                   (Some (getMongoType typeKeys)) (Some tree)) of
                           Inl err \<Rightarrow> Inl err
                         | Inr cols1 \<Rightarrow>
                             convertSchema_loop rest documentsCount cols1 nestedschemaset
                               nestedindex)))
            else
              (case assign_column cols key
                      (Column (getKeyType typeKeys) None (Some (getMongoType typeKeys)) None) of
                 Inl err \<Rightarrow> Inl err
               | Inr cols1 \<Rightarrow>
                   convertSchema_loop rest documentsCount cols1 nestedschemaset nestedindex))
         else
           (if typeKeys = ''Object'' then
              (case value' e of
                 None \<Rightarrow> Inl TypeError
               | Some v \<Rightarrow>
                   (case serializeCValue (obj_get v ''Object'') of
                      Inl err \<Rightarrow> Inl err
                    | Inr tree \<Rightarrow>
                        (let tempnestedschemaset = obj_put tree ''$$'' carbin
                         in convertSchema_loop rest documentsCount cols
                              (obj_put nestedschemaset (show_nat nestedindex)
                                 \<lparr>columns = tempnestedschemaset\<rparr>)
                              (nestedindex + 1))))
            else convertSchema_loop rest documentsCount cols nestedschemaset nestedindex))"

text \<open>
  \<open>convertSchema\<close> returns the columns and, in the model, the sink as the loop left
  it. The fourth parameter is the flat pipeline's aggregate.
\<close>

definition convertSchema ::
  "entry obj \<Rightarrow> nat \<Rightarrow> nested_schema obj \<Rightarrow> flat_entry obj
     \<Rightarrow> stop + (column obj \<times> nested_schema obj)" where
  "convertSchema interimResultsstrc documentsCount nestedschemaset interimResults =
     (case convertSchema_loop interimResultsstrc documentsCount [] nestedschemaset 1 of
        Inl err \<Rightarrow> Inl err
      | Inr (cols, sink, nestedindex) \<Rightarrow> Inr (obj_put cols ''$$'' carbin, sink))"

section \<open>Index Translator\<close>

text \<open>
  An index as \<open>getIndexes\<close> reports it: its name, its key pattern and the member
  \<open>unique\<close>, \<open>undefined\<close> when absent. The direction of a field in a key pattern is a
  number or the name of an index kind; the server accepts no other text there.
\<close>

datatype index_kind = Hashed | Text | TwoD | TwoDSphere | GeoHaystack

fun kind_name :: "index_kind \<Rightarrow> string" where
  "kind_name Hashed = ''hashed''"
| "kind_name Text = ''text''"
| "kind_name TwoD = ''2d''"
| "kind_name TwoDSphere = ''2dsphere''"
| "kind_name GeoHaystack = ''geoHaystack''"

datatype direction = DirNum real | DirKind index_kind

record index_spec =
  ix_name :: string
  ix_key :: "direction obj"
  ix_unique :: jsval

record index_descriptor =
  fields' :: string
  ordered :: bool
  unique :: bool

text \<open>
  \<open>choice[upordown]\<close> for the object \<open>{"1": "", "-1": "-"}\<close>; \<open>None\<close> is \<open>undefined\<close>.
  The property name is the direction as a text, which is \<open>1\<close> or \<open>-1\<close> for these two
  numbers only.
\<close>

definition choice :: "direction \<Rightarrow> string option" where
  "choice upordown =
     (case upordown of
        DirNum x \<Rightarrow> (if x = 1 then Some '''' else if x = - 1 then Some ''-'' else None)
      | DirKind k \<Rightarrow> obj_get [(''1'', ''''), (''-1'', ''-'')] (kind_name k))"

text \<open>The inner loop over the fields of one key pattern, with \<open>part\<close> and \<open>ordered\<close>.\<close>

fun generateIndex_fields :: "direction obj \<Rightarrow> string list \<Rightarrow> bool \<Rightarrow> string list \<times> bool" where
  "generateIndex_fields [] part ord = (part, ord)"
| "generateIndex_fields ((field, upordown) # rest) part ord =
     (if upordown = DirKind Hashed
      then generateIndex_fields rest (part @ [field]) False
      else generateIndex_fields rest
             (part @ [(case choice upordown of None \<Rightarrow> ''undefined'' | Some sign \<Rightarrow> sign) @ field])
             ord)"

text \<open>The outer loop over the indexes, with the array \<open>results\<close>.\<close>

fun generateIndex_loop :: "index_spec list \<Rightarrow> index_descriptor list \<Rightarrow> index_descriptor list" where
  "generateIndex_loop [] results = results"
| "generateIndex_loop (ix # rest) results =
     (if ''_id_'' \<noteq> ix_name ix then
        (case generateIndex_fields (ix_key ix) [] True of
           (part, ord) \<Rightarrow>
             generateIndex_loop rest
               (results @ [\<lparr>fields' = js_join '','' part, ordered = ord,
                             unique = (ix_unique ix = JBool True)\<rparr>]))
      else
        generateIndex_loop rest
          (results @ [\<lparr>fields' = ''_id'', ordered = True, unique = True\<rparr>]))"

definition generateIndex :: "index_spec list \<Rightarrow> index_descriptor list" where
  "generateIndex originalindex = generateIndex_loop originalindex []"

section \<open>Flat pipeline: analyzer and merger\<close>

text \<open>
  \<open>analyseDocument\<close> builds its regular expression, then goes over the flattened
  document: the array ordinals of a path are replaced by the bare marker, and the type
  of the value is recorded under the path.
\<close>

fun analyseDocument_loop ::
  "string \<Rightarrow> regexp \<Rightarrow> jsval obj \<Rightarrow> bool obj obj \<Rightarrow> stop + bool obj obj" where
  "analyseDocument_loop arrayEscape arrayRegex [] result = Inr result"
| "analyseDocument_loop arrayEscape arrayRegex ((key0, value) # rest) result =
     (let key = js_replace arrayRegex (''.'' @ arrayEscape) key0;
          result1 = (if js_get result key = Undefined then obj_put result key [] else result);
          type = varietyTypeOf value
      in case assign_tag result1 key type True of
           Inl err \<Rightarrow> Inl err
         | Inr result2 \<Rightarrow> analyseDocument_loop arrayEscape arrayRegex rest result2)"

definition analyseDocument :: "string \<Rightarrow> jsval obj \<Rightarrow> stop + bool obj obj" where
  "analyseDocument arrayEscape document =
     (case new_RegExp arrayEscape '''' of
        Inl err \<Rightarrow> Inl err
      | Inr arrayRegex \<Rightarrow> analyseDocument_loop arrayEscape arrayRegex document [])"

fun mergeDocument :: "bool obj obj \<Rightarrow> flat_entry obj \<Rightarrow> stop + flat_entry obj" where
  "mergeDocument [] interimResults = Inr interimResults"
| "mergeDocument ((key, tags) # rest) interimResults =
     (case js_get interimResults key of
        Own existing \<Rightarrow>
          (case merge_types (map fst tags) (flat_types existing) of
             Inl err \<Rightarrow> Inl err
           | Inr counts \<Rightarrow>
               mergeDocument rest
                 (obj_put interimResults key
                    (existing\<lparr>flat_types := counts,
                              flat_totalOccurrences := flat_totalOccurrences existing + 1\<rparr>)))
      | Prototype \<Rightarrow> (if tags = [] then Inl OutOfModel else Inl TypeError)
      | Member \<Rightarrow> (if tags = [] then mergeDocument rest interimResults else Inl TypeError)
      | Undefined \<Rightarrow>
          mergeDocument rest
            (obj_put interimResults key
               \<lparr>flat_types = new_types (map fst tags), flat_totalOccurrences = 1\<rparr>))"

definition reduceDocuments ::
  "string \<Rightarrow> int \<Rightarrow> bool obj \<Rightarrow> flat_entry obj \<Rightarrow> jsval obj \<Rightarrow> stop + flat_entry obj" where
  "reduceDocuments arrayEscape maxDepth excludeSubkeys accumulator object =
     (case serializeDoc arrayEscape object maxDepth excludeSubkeys of
        Inl err \<Rightarrow> Inl err
      | Inr flat \<Rightarrow>
          (case analyseDocument arrayEscape flat of
             Inl err \<Rightarrow> Inl err
           | Inr docResult \<Rightarrow> mergeDocument docResult accumulator))"

section \<open>Target validation and the run\<close>

text \<open>
  What the script reads from the shell: the databases of the server with their
  collections and documents, whether \<open>listDatabases\<close> answers with the member
  \<open>databases\<close>, the name of the current database, the global \<open>collection\<close> (\<open>None\<close>
  when it is not defined), the options \<open>maxDepth\<close>, \<open>arrayEscape\<close> and
  \<open>excludeSubkeys\<close> as resolved by \<open>readConfig\<close>, the documents the cursor
  \<open>find(query).sort(sort).limit(limit)\<close> yields in order, and the indexes of the
  collection. No plugin is configured.
\<close>

record shell =
  server :: "(string \<times> (string \<times> jsval obj list) list) list"
  listDatabases_answers :: bool
  db_name :: string
  collection :: "string option"
  cfg_maxDepth :: int
  cfg_arrayEscape :: string
  cfg_excludeSubkeys :: "string list"
  cursor_documents :: "jsval obj list"
  getIndexes :: "index_spec list"

definition getCollectionNames :: "shell \<Rightarrow> string \<Rightarrow> string list" where
  "getCollectionNames sh d = (case map_of (server sh) d of None \<Rightarrow> [] | Some colls \<Rightarrow> map fst colls)"

text \<open>\<open>db[c].count()\<close>; a collection that does not exist counts zero documents.\<close>

definition count_documents :: "shell \<Rightarrow> string \<Rightarrow> nat" where
  "count_documents sh c =
     (case map_of (server sh) (db_name sh) of
        None \<Rightarrow> 0
      | Some colls \<Rightarrow> (case map_of colls c of None \<Rightarrow> 0 | Some docs \<Rightarrow> length docs))"

text \<open>
  The texts of the four messages. The apostrophe, the double quote, the line feed and
  the letter a with grave accent (two bytes in UTF-8) are written by their codes.
\<close>

definition msg_database_empty :: "string \<Rightarrow> string \<Rightarrow> string" where
  "msg_database_empty d dbs =
     ''The database specified ('' @ d @ '') is empty.'' @ [CHR 0x0A]
     @ ''Possible database options are: '' @ dbs @ ''.''"

definition msg_database_missing :: "string \<Rightarrow> string \<Rightarrow> string" where
  "msg_database_missing d dbs =
     ''The database specified ('' @ d @ '') does not exist.'' @ [CHR 0x0A]
     @ ''Possible database options are: '' @ dbs @ ''.''"

definition msg_collection_undefined :: "string \<Rightarrow> string" where
  "msg_collection_undefined collNames =
     ''You have to supply a '' @ [CHR 0x27] @ ''collection'' @ [CHR 0x27] @ '' variable, ''
     @ [CHR 0xC3, CHR 0xA0] @ '' la --eval '' @ [CHR 0x27] @ ''var collection = ''
     @ [CHR 0x22] @ ''animals'' @ [CHR 0x22] @ [CHR 0x27] @ ''.'' @ [CHR 0x0A]
     @ ''Possible collection options for database specified: '' @ collNames @ ''.''
     @ [CHR 0x0A] @ ''Please see https://github.com/variety/variety for details.''"

definition msg_collection_empty :: "string \<Rightarrow> string \<Rightarrow> string \<Rightarrow> string" where
  "msg_collection_empty c d collNames =
     ''The collection specified ('' @ c @ '') in the database specified ('' @ d
     @ '') does not exist or is empty.'' @ [CHR 0x0A]
     @ ''Possible collection options for database specified: '' @ collNames @ ''.''"

text \<open>
  The checks at the start of the script, in their order; the result of each block is
  the message thrown, or \<open>None\<close> when its checks pass. The checks of the database are
  skipped when \<open>listDatabases\<close> does not answer with the member \<open>databases\<close>.
\<close>

definition validate_database :: "shell \<Rightarrow> string option" where
  "validate_database sh =
     (let known = map fst (server sh);
          dbs = filter (\<lambda>d. length (getCollectionNames sh d) > 0) known;
          emptyDbs = filter (\<lambda>d. length (getCollectionNames sh d) = 0) known
      in if listDatabases_answers sh \<and> db_name sh \<in> set emptyDbs
         then Some (msg_database_empty (db_name sh) (js_join '', '' dbs))
         else if listDatabases_answers sh \<and> db_name sh \<notin> set dbs
         then Some (msg_database_missing (db_name sh) (js_join '', '' dbs))
         else None)"

definition validate_collection :: "shell \<Rightarrow> string option" where
  "validate_collection sh =
     (let collNames = js_join '', '' (getCollectionNames sh (db_name sh))
      in case collection sh of
           None \<Rightarrow> Some (msg_collection_undefined collNames)
         | Some c \<Rightarrow>
             (if count_documents sh c = 0
              then Some (msg_collection_empty c (db_name sh) collNames)
              else None))"

definition validate :: "shell \<Rightarrow> string option" where
  "validate sh =
     (case validate_database sh of
        Some msg \<Rightarrow> Some msg
      | None \<Rightarrow> validate_collection sh)"

text \<open>
  The Result Document, and the effects of a run that the claims speak of: a fold of
  the cursor's documents, and the printing of the Result Document.
\<close>

record result_document =
  CheckMongoType :: bool
  RowSchema :: "column obj"
  TableIndex :: "index_descriptor list option"
  NestedSchemaSet :: "nested_schema obj option"

datatype event = Fold | Print result_document


text \<open>
  The script as a whole: the effects in their order, and how the run ended if it did
  not reach its end. Between the validation and the folds the script builds, from the
  escape marker, the regular expression \<open>new RegExp('\\.' + arrayEscape + '$', 'g')\<close> of
  a filter that it never applies; for a marker that is not plain this is the first
  step that the model does not follow. A fold is recorded when it starts. Both folds
  start from an empty aggregate; the converter gets the shape-preserving aggregate,
  the size of the cursor, a new empty sink and the flat aggregate.
\<close>

definition main :: "shell \<Rightarrow> event list \<times> stop option" where
  "main sh =
     (case validate sh of
        Some msg \<Rightarrow> ([], Some (Message msg))
      | None \<Rightarrow>
          (if \<not> regex_plain (cfg_arrayEscape sh) then ([], Some OutOfModel)
           else
             (case cursor_reduce
                     (reduceDocuments (cfg_arrayEscape sh) (cfg_maxDepth sh)
                        (excludeSubkeys_set (cfg_excludeSubkeys sh)))
                     [] (cursor_documents sh) of
                Inl err \<Rightarrow> ([Fold], Some err)
              | Inr interimResults \<Rightarrow>
                  (case cursor_reduce (reduceDocumentsterark (cfg_maxDepth sh)) []
                          (cursor_documents sh) of
                     Inl err \<Rightarrow> ([Fold, Fold], Some err)
                   | Inr interimResultsterark \<Rightarrow>
                       (case convertSchema interimResultsterark (length (cursor_documents sh))
                               [] interimResults of
                          Inl err \<Rightarrow> ([Fold, Fold], Some err)
                        | Inr (cols, nestedschemaset) \<Rightarrow>
                            (let tableindex = generateIndex (getIndexes sh)
                             in ([Fold, Fold,
                                  Print \<lparr>CheckMongoType = True, RowSchema = cols,
                                         TableIndex =
                                           (if tableindex \<noteq> [] then Some tableindex else None),
                                         NestedSchemaSet =
                                           (if nestedschemaset \<noteq> [] then Some nestedschemaset
                                            else None)\<rparr>],
                                 None)))))))"


section \<open>Notions for stating the properties\<close>

subsection \<open>The flat flattener\<close>

text \<open>
  The assignments \<open>result[path] = value\<close> that \<open>serialize\<close> makes when it runs to its
  end, in their order.
\<close>

function writes ::
    "bool obj \<Rightarrow> string \<Rightarrow> regexp \<Rightarrow> jsval \<Rightarrow> string \<Rightarrow> int \<Rightarrow> (string \<times> jsval) list"
  and writes_loop ::
    "bool obj \<Rightarrow> string \<Rightarrow> regexp \<Rightarrow> bool \<Rightarrow> (string \<times> jsval) list \<Rightarrow> string \<Rightarrow> int
       \<Rightarrow> (string \<times> jsval) list" where
  "writes ex esc rx document parentKey maxDepth =
     (if obj_has ex (js_replace rx ''.'' parentKey) then []
      else writes_loop ex esc rx (isArray document) (for_in document) parentKey maxDepth)"
| "writes_loop ex esc rx isArr [] parentKey maxDepth = []"
| "writes_loop ex esc rx isArr ((key0, value) # rest) parentKey maxDepth =
     (let key = (if isArr then esc @ key0 @ esc else key0)
      in (parentKey @ key, value)
         # (if isHash value \<and> maxDepth > 1
            then writes ex esc rx value (parentKey @ key @ ''.'') (maxDepth - 1)
            else [])
         @ writes_loop ex esc rx isArr rest parentKey maxDepth)"
  by pat_completeness auto
termination
proof (relation "measure (\<lambda>x. case x of
          Inl (ex, esc, rx, document, pk, d) \<Rightarrow> 2 * size document + 2
        | Inr (ex, esc, rx, isArr, props, pk, d) \<Rightarrow> (\<Sum>p\<leftarrow>props. 2 * size (snd p) + 2) + 1)",
       goal_cases)
  case (2 ex esc rx document parentKey maxDepth)
  show ?case using for_in_size [of document] by simp
qed simp_all

definition replay :: "(string \<times> jsval) list \<Rightarrow> jsval obj \<Rightarrow> jsval obj" where
  "replay ws result = fold (\<lambda>w r. obj_put r (fst w) (snd w)) ws result"

text \<open>
  \<open>normalized arrayEscape path\<close> is \<open>path.replace(arrayRegex, '.')\<close> for the expression
  that \<open>serializeDoc\<close> builds from a plain marker: from left to right, each occurrence
  of a dot, the marker, digits, the marker and a dot that does not overlap an earlier
  one becomes a single dot. The dot that ends one occurrence does not start the next,
  so of the ordinals of an array that lies directly in an array only every other one
  is removed.
\<close>

definition normalized :: "string \<Rightarrow> string \<Rightarrow> string" where
  "normalized arrayEscape path = js_replace (MarkerRegExp arrayEscape ''.'') ''.'' path"

text \<open>
  A string is \<open>dotfree\<close> when it holds no dot; the
  source assumes that of every key of a document (\<open>keys_dotfree\<close>). \<open>path_key\<close> is
  the segment the loop appends to \<open>parentKey\<close>: the key itself, or the index between
  escape markers when the value visited is an array.
\<close>

definition dotfree :: "string \<Rightarrow> bool" where
  "dotfree s = (CHR ''.'' \<notin> set s)"

fun keys_dotfree :: "jsval \<Rightarrow> bool" where
  "keys_dotfree (JObj kvs) = (\<forall>(k, v) \<in> set kvs. dotfree k \<and> keys_dotfree v)"
| "keys_dotfree (JArr xs) = (\<forall>v \<in> set xs. keys_dotfree v)"
| "keys_dotfree v = True"

definition path_key :: "string \<Rightarrow> bool \<Rightarrow> string \<Rightarrow> string" where
  "path_key esc isArr key0 = (if isArr then esc @ key0 @ esc else key0)"

text \<open>
  The keys of every object of a document are distinct
  (\<open>keys_distinct\<close>). \<open>children\<close> are the segments under a value with the values they
  lead to, and \<open>value_at\<close> follows a list of segments from the document to the value
  at that position.
\<close>

fun keys_distinct :: "jsval \<Rightarrow> bool" where
  "keys_distinct (JObj kvs) = (distinct (map fst kvs) \<and> (\<forall>(k, v) \<in> set kvs. keys_distinct v))"
| "keys_distinct (JArr xs) = (\<forall>v \<in> set xs. keys_distinct v)"
| "keys_distinct v = True"

definition children :: "string \<Rightarrow> jsval \<Rightarrow> (string \<times> jsval) list" where
  "children esc v = map (\<lambda>kv. (path_key esc (isArray v) (fst kv), snd kv)) (for_in v)"

fun value_at :: "string \<Rightarrow> jsval \<Rightarrow> string list \<Rightarrow> jsval option" where
  "value_at esc v [] = Some v"
| "value_at esc v (seg # segs) =
     (case map_of (children esc v) seg of
        None \<Rightarrow> None
      | Some c \<Rightarrow> value_at esc c segs)"

text \<open>
  A document is \<open>unshadowed\<close> when none of its objects, at any depth, has an own field
  named \<open>hasOwnProperty\<close>: every call \<open>document.hasOwnProperty(key)\<close> then reaches the
  function that plain objects inherit.
\<close>

fun unshadowed :: "jsval \<Rightarrow> bool" where
  "unshadowed (JObj kvs) =
     (\<not> obj_has kvs ''hasOwnProperty'' \<and> (\<forall>(k, v) \<in> set kvs. unshadowed v))"
| "unshadowed (JArr xs) = (\<forall>v \<in> set xs. unshadowed v)"
| "unshadowed v = True"

text \<open>
  A document is \<open>well_keyed\<close> when the keys of each of its objects are distinct and
  hold no dot, it is unshadowed, and it has itself no field named \<open>__proto__\<close>.
\<close>

definition well_keyed :: "jsval obj \<Rightarrow> bool" where
  "well_keyed doc =
     (keys_dotfree (JObj doc) \<and> keys_distinct (JObj doc) \<and> unshadowed (JObj doc)
      \<and> \<not> obj_has doc ''__proto__'')"

subsection \<open>The analysis of a document and the aggregate\<close>

text \<open>
  The shape-preserving scan runs to its end on a document that is \<open>scannable\<close>: it has
  no own field named \<open>hasOwnProperty\<close>, and neither the document nor an object reached
  from it through objects only has a field named \<open>__proto__\<close>.
\<close>

fun proto_free :: "jsval \<Rightarrow> bool" where
  "proto_free (JObj kvs) = (\<forall>(k, v) \<in> set kvs. k \<noteq> ''__proto__'' \<and> proto_free v)"
| "proto_free v = True"

definition scannable :: "jsval obj \<Rightarrow> bool" where
  "scannable doc = (\<not> obj_has doc ''hasOwnProperty'' \<and> proto_free (JObj doc))"

text \<open>
  A name is \<open>reserved\<close> when a plain object inherits a property of that name. An
  analysis is \<open>unreserved\<close> when none of its paths and none of its tags is reserved.
\<close>

definition reserved :: "string \<Rightarrow> bool" where
  "reserved k = (k = ''__proto__'' \<or> k \<in> set Object_prototype)"

definition unreserved :: "'a obj obj \<Rightarrow> bool" where
  "unreserved result =
     list_all (\<lambda>kt. \<not> reserved (fst kt) \<and> list_all (\<lambda>t. \<not> reserved (fst t)) (snd kt)) result"

text \<open>
  The analysis of one document is \<open>tagged\<close>: its paths are distinct, and each has a
  set of tags that is not empty and whose tags are distinct.
\<close>

definition tagged :: "'a obj obj \<Rightarrow> bool" where
  "tagged result =
     (distinct (map fst result)
      \<and> (\<forall>k tags. obj_get result k = Some tags \<longrightarrow> tags \<noteq> [] \<and> distinct (map fst tags)))"

text \<open>
  An entry is sound when it has its snapshot or has counted a type other than
  \<open>Object\<close>.
\<close>

definition sound_entry :: "entry \<Rightarrow> bool" where
  "sound_entry e = (value' e \<noteq> None \<or> (\<exists>t. obj_has (types e) t \<and> t \<noteq> ''Object''))"

subsection \<open>The converter\<close>

text \<open>
  \<open>typeKeys\<close> is the local variable of that name, \<open>snapshot_tree\<close> the expression
  \<open>entry["value"]['Object']\<close>.
\<close>

definition typeKeys :: "entry \<Rightarrow> string" where
  "typeKeys e = js_join '','' (map fst (types e))"

definition snapshot_tree :: "entry \<Rightarrow> marker option" where
  "snapshot_tree e = (case value' e of None \<Rightarrow> None | Some v \<Rightarrow> obj_get v ''Object'')"

text \<open>
  The names of the own properties of an object stand in enumeration order
  (\<open>js_ordered\<close>): the array indices first, in ascending numeric order, then the other
  names, and no name twice. A snapshot is \<open>regular\<close> when at every level its field
  names stand in that order and none of them is \<open>__proto__\<close>, as in every object that
  the analyzer builds.
\<close>

fun js_ordered :: "string list \<Rightarrow> bool" where
  "js_ordered [] = True"
| "js_ordered (k # ks) =
     (k \<notin> set ks
      \<and> (if is_array_index k
         then list_all (\<lambda>k'. is_array_index k' \<longrightarrow> read_num k < read_num k') ks
         else list_all (\<lambda>k'. \<not> is_array_index k') ks)
      \<and> js_ordered ks)"

fun regular :: "marker \<Rightarrow> bool" where
  "regular MTrue = True"
| "regular (MTree sh) =
     (js_ordered (map fst sh)
      \<and> (\<forall>(k, tags) \<in> set sh. k \<noteq> ''__proto__'' \<and> (\<forall>(t, m) \<in> set tags. regular m)))"

text \<open>
  What holds of the aggregate throughout a scan (\<open>scanned\<close>): its keys are distinct,
  none is \<open>__proto__\<close>, every entry is sound, and every snapshot is regular under each
  of its tags.
\<close>

definition scanned :: "entry obj \<Rightarrow> bool" where
  "scanned acc =
     (distinct (map fst acc)
      \<and> (\<forall>ke \<in> set acc. fst ke \<noteq> ''__proto__'' \<and> sound_entry (snd ke)
            \<and> (\<forall>v. value' (snd ke) = Some v \<longrightarrow> (\<forall>tm \<in> set v. regular (snd tm)))))"

text \<open>
  An aggregate is \<open>regular\<close> when no key is \<open>__proto__\<close> and every entry whose type
  keys are exactly \<open>Object\<close> has the member \<open>value\<close>, with a regular snapshot: on such an
  aggregate the converter runs to its end.
\<close>

definition regular_entry :: "entry \<Rightarrow> bool" where
  "regular_entry e =
     (typeKeys e = ''Object'' \<longrightarrow>
        (case value' e of
           None \<Rightarrow> False
         | Some v \<Rightarrow> (case obj_get v ''Object'' of None \<Rightarrow> True | Some m \<Rightarrow> regular m)))"

definition regular_aggregate :: "entry obj \<Rightarrow> bool" where
  "regular_aggregate agg = list_all (\<lambda>p. fst p \<noteq> ''__proto__'' \<and> regular_entry (snd p)) agg"

text \<open>
  The nested column tree of a snapshot: every field of the shape, in its order, gets
  the encoding type and the domain name of its joined type tags, and a field whose one
  tag is \<open>Object\<close> gets in turn the nested column tree of the shape under that tag. No
  field gets a length.
\<close>

fun nested_columns :: "marker \<Rightarrow> column obj"
  and field_columns :: "shape \<Rightarrow> column obj"
  and field_column :: "typeset \<Rightarrow> column" where
  "nested_columns MTrue = []"
| "nested_columns (MTree sh) = field_columns sh"
| "field_columns [] = []"
| "field_columns ((k, tags) # rest) = (k, field_column tags) # field_columns rest"
| "field_column [] = Column (getKeyType '''') None (Some (getMongoType '''')) None"
| "field_column ((t, m) # others) =
     (if others = [] \<and> t = ''Object''
      then Column (getKeyType ''Object'') None (Some (getMongoType ''Object''))
             (Some (nested_columns m))
      else Column (getKeyType (js_join '','' (t # map fst others))) None
             (Some (getMongoType (js_join '','' (t # map fst others)))) None)"

definition snapshot_columns :: "entry \<Rightarrow> column obj" where
  "snapshot_columns e = (case snapshot_tree e of None \<Rightarrow> [] | Some m \<Rightarrow> nested_columns m)"

text \<open>
  The nested column tree as the specification words it: the three-way rule of the
  RowSchema applied to every nested field. A field whose one type is \<open>ObjectId\<close> gets
  the length 12, a field whose one type is \<open>Object\<close> gets its nested column tree, any
  other field gets its encoding type and domain name only.
\<close>

fun spec_nested_columns :: "marker \<Rightarrow> column obj"
  and spec_field_columns :: "shape \<Rightarrow> column obj"
  and spec_field_column :: "typeset \<Rightarrow> column" where
  "spec_nested_columns MTrue = []"
| "spec_nested_columns (MTree sh) = spec_field_columns sh"
| "spec_field_columns [] = []"
| "spec_field_columns ((k, tags) # rest) = (k, spec_field_column tags) # spec_field_columns rest"
| "spec_field_column [] = Column (getKeyType '''') None (Some (getMongoType '''')) None"
| "spec_field_column ((t, m) # others) =
     (if others = [] \<and> t = ''ObjectId''
      then Column (getKeyType ''ObjectId'') (Some 12) (Some (getMongoType ''ObjectId'')) None
      else if others = [] \<and> t = ''Object''
      then Column (getKeyType ''Object'') None (Some (getMongoType ''Object''))
             (Some (spec_nested_columns m))
      else Column (getKeyType (js_join '','' (t # map fst others))) None
             (Some (getMongoType (js_join '','' (t # map fst others)))) None)"


text \<open>
  \<open>sparse_objects\<close> are the entries that take the branch to the NestedSchemaSet, those
  whose count differs from the document count and whose type keys are exactly \<open>Object\<close>;
  \<open>nested_entry\<close> is what is registered for one of them, \<open>column_of\<close> the column of an
  entry present in every document. \<open>register\<close> and \<open>emit\<close> replay the assignments to the
  sink and to \<open>columns\<close>.
\<close>

definition sparse_objects :: "nat \<Rightarrow> entry obj \<Rightarrow> entry obj" where
  "sparse_objects n agg =
     filter (\<lambda>p. totalOccurrences (snd p) \<noteq> n \<and> typeKeys (snd p) = ''Object'') agg"

definition nested_entry :: "entry \<Rightarrow> nested_schema" where
  "nested_entry e = \<lparr>columns = obj_put (snapshot_columns e) ''$$'' carbin\<rparr>"

definition column_of :: "entry \<Rightarrow> column" where
  "column_of e =
     (if typeKeys e = ''ObjectId''
      then Column (getKeyType (typeKeys e)) (Some 12) (Some (getMongoType (typeKeys e))) None
      else if typeKeys e = ''Object''
      then Column (getKeyType (typeKeys e)) None (Some (getMongoType (typeKeys e)))
             (Some (snapshot_columns e))
      else Column (getKeyType (typeKeys e)) None (Some (getMongoType (typeKeys e))) None)"

fun register :: "nat \<Rightarrow> entry list \<Rightarrow> nested_schema obj \<Rightarrow> nested_schema obj" where
  "register i [] sink = sink"
| "register i (e # es) sink = register (Suc i) es (obj_put sink (show_nat i) (nested_entry e))"

fun emit :: "entry obj \<Rightarrow> column obj \<Rightarrow> column obj" where
  "emit [] cols = cols"
| "emit ((k, e) # rest) cols = emit rest (obj_put cols k (column_of e))"

text \<open>
  The converter applied to the aggregate of a scan, as the script applies it: with the
  number of documents scanned, an empty sink and (here) an empty flat aggregate.
\<close>

definition schema_of_scan ::
  "int \<Rightarrow> jsval obj list \<Rightarrow> stop + (column obj \<times> nested_schema obj)" where
  "schema_of_scan maxDepth docs =
     (case cursor_reduce (reduceDocumentsterark maxDepth) [] docs of
        Inl err \<Rightarrow> Inl err
      | Inr agg \<Rightarrow> convertSchema agg (length docs) [] [])"

subsection \<open>The index translation of the specification\<close>





section \<open>Basic facts about plain objects and strings\<close>

lemma map_of_obj_replace:
  "map_of (obj_replace k v ps) k' =
     (if k' = k \<and> map_of ps k \<noteq> None then Some v else map_of ps k')"
  by (induction ps) auto

lemma map_of_obj_insert_index:
  "map_of ps k = None \<Longrightarrow>
   map_of (obj_insert_index k v ps) k' = (if k' = k then Some v else map_of ps k')"
  by (induction ps) (auto split: if_splits)

lemma obj_get_put [simp]:
  "obj_get (obj_put ob k v) k' = (if k' = k then Some v else obj_get ob k')"
  by (auto simp: obj_get_def obj_put_def obj_has_def map_of_obj_replace map_of_obj_insert_index
                 map_add_def split: option.splits)

lemma obj_has_put [simp]:
  "obj_has (obj_put ob k v) k' = (k' = k \<or> obj_has ob k')"
  using obj_get_put [of ob k v k'] by (auto simp: obj_get_def obj_has_def)

lemma obj_get_Nil [simp]: "obj_get [] k = None"
  by (simp add: obj_get_def)

lemma obj_has_Nil [simp]: "\<not> obj_has [] k"
  by (simp add: obj_has_def)

lemma obj_has_get: "obj_has ob k \<longleftrightarrow> obj_get ob k \<noteq> None"
  by (simp add: obj_has_def obj_get_def)

lemma js_join_comma_eq_Object:
  "js_join '','' ks = ''Object'' \<longleftrightarrow> ks = [''Object'']"
proof (cases ks)
  case Nil
  then show ?thesis by simp
next
  case (Cons x xs)
  show ?thesis
  proof (cases xs)
    case Nil
    with Cons show ?thesis by simp
  next
    case (Cons y ys)
    have "CHR '','' \<in> set (x @ '','' @ js_join '','' (y # ys))" by simp
    moreover have "CHR '','' \<notin> set ''Object''" by simp
    ultimately have "x @ '','' @ js_join '','' (y # ys) \<noteq> ''Object''" by metis
    with \<open>ks = x # xs\<close> Cons show ?thesis by simp
  qed
qed


lemma digit_val_nth: "d < 10 \<Longrightarrow> digit_val (''0123456789'' ! d) = int d"
proof -
  assume "d < 10"
  then have "d = 0 \<or> d = 1 \<or> d = 2 \<or> d = 3 \<or> d = 4 \<or> d = 5 \<or> d = 6 \<or> d = 7 \<or> d = 8 \<or> d = 9"
    by arith
  then show ?thesis
    by (elim disjE) (simp_all add: digit_val_def)
qed

lemma read_num_snoc: "read_num (s @ [c]) = 10 * read_num s + digit_val c"
  by (simp add: read_num_def)

lemma read_num_show_nat: "read_num (show_nat n) = int n"
proof (induction n rule: show_nat.induct)
  case (1 n)
  show ?case
  proof (cases "n < 10")
    case True
    then show ?thesis
      by (subst show_nat.simps) (simp add: read_num_def digit_val_nth)
  next
    case False
    then have "read_num (show_nat (n div 10)) = int (n div 10)" by (rule "1.IH")
    with False show ?thesis
      by (subst show_nat.simps) (simp add: read_num_snoc digit_val_nth zdiv_int zmod_int)
  qed
qed

lemma show_nat_inj: "show_nat m = show_nat n \<longleftrightarrow> m = n"
  by (metis read_num_show_nat of_nat_eq_iff)

lemma show_nat_digits: "list_all is_digit (show_nat n)"
proof (induction n rule: show_nat.induct)
  case (1 n)
  have nth: "is_digit (''0123456789'' ! d)" if "d < 10" for d
  proof -
    from that have "d = 0 \<or> d = 1 \<or> d = 2 \<or> d = 3 \<or> d = 4 \<or> d = 5 \<or> d = 6 \<or> d = 7 \<or> d = 8 \<or> d = 9"
      by arith
    then show ?thesis by (elim disjE) (simp_all add: is_digit_def)
  qed
  show ?case
  proof (cases "n < 10")
    case True
    then show ?thesis by (subst show_nat.simps) (simp add: nth)
  next
    case False
    with "1.IH" show ?thesis by (subst show_nat.simps) (simp add: nth)
  qed
qed

lemma map_fst_obj_replace: "map fst (obj_replace k v ps) = map fst ps"
  by (induction ps) auto

lemma set_obj_insert_index: "set (obj_insert_index k v ps) = insert (k, v) (set ps)"
  by (induction ps) (auto split: if_splits)

lemma set_fst_obj_insert_index: "fst ` set (obj_insert_index k v ps) = insert k (fst ` set ps)"
  by (simp add: set_obj_insert_index)

lemma distinct_obj_insert_index:
  "distinct (map fst ps) \<Longrightarrow> k \<notin> fst ` set ps \<Longrightarrow> distinct (map fst (obj_insert_index k v ps))"
  by (induction ps) (auto simp: set_fst_obj_insert_index)

lemma distinct_obj_put:
  "distinct (map fst ob) \<Longrightarrow> distinct (map fst (obj_put ob k v))"
  by (auto simp: obj_put_def obj_has_def map_fst_obj_replace distinct_obj_insert_index
                 map_of_eq_None_iff)

lemma obj_get_distinct: "distinct (map fst ob) \<Longrightarrow> (k, v) \<in> set ob \<Longrightarrow> obj_get ob k = Some v"
  by (simp add: obj_get_def)

lemma obj_get_mem: "obj_get ob k = Some v \<Longrightarrow> (k, v) \<in> set ob"
  by (simp add: obj_get_def map_of_SomeD)

lemma obj_put_not_Nil: "obj_put ob k v \<noteq> []"
proof
  assume "obj_put ob k v = []"
  then have "obj_get (obj_put ob k v) k = None" by simp
  then show False by simp
qed

lemma digit_val_nonneg: "0 \<le> digit_val c"
  by (simp add: digit_val_def split: option.splits if_splits)

lemma digit_val_digit:
  "is_digit c \<Longrightarrow> 0 \<le> digit_val c \<and> digit_val c < 10 \<and> ''0123456789'' ! nat (digit_val c) = c"
  by (auto simp: is_digit_def digit_val_def)

lemma digit_val_zero: "is_digit c \<Longrightarrow> digit_val c = 0 \<Longrightarrow> c = CHR ''0''"
  by (auto simp: is_digit_def digit_val_def)

lemma foldl_read_ge: "0 \<le> a \<Longrightarrow> a \<le> foldl (\<lambda>a c. 10 * a + digit_val c) a cs"
proof (induction cs arbitrary: a)
  case Nil
  then show ?case by simp
next
  case (Cons c cs)
  have "0 \<le> 10 * a + digit_val c" using Cons.prems digit_val_nonneg [of c] by simp
  from Cons.IH [OF this] Cons.prems digit_val_nonneg [of c] show ?case by simp
qed

lemma read_num_pos:
  assumes "s \<noteq> []" and "list_all is_digit s" and "hd s \<noteq> CHR ''0''"
  shows "0 < read_num s"
proof -
  from assms(1) obtain c cs where s: "s = c # cs" by (cases s) auto
  with assms(2,3) have "is_digit c" "c \<noteq> CHR ''0''" by simp_all
  with digit_val_zero [of c] digit_val_nonneg [of c] have pos: "0 < digit_val c" by fastforce
  then have "digit_val c \<le> foldl (\<lambda>a c. 10 * a + digit_val c) (digit_val c) cs"
    by (intro foldl_read_ge) simp
  with pos show ?thesis by (simp add: s read_num_def)
qed

lemma show_nat_read_num:
  "s \<noteq> [] \<Longrightarrow> list_all is_digit s \<Longrightarrow> s = ''0'' \<or> hd s \<noteq> CHR ''0'' \<Longrightarrow>
   show_nat (nat (read_num s)) = s"
proof (induction s rule: rev_induct)
  case Nil
  then show ?case by simp
next
  case (snoc c t)
  from snoc.prems(2) have c: "is_digit c" and t: "list_all is_digit t" by simp_all
  define e where "e = nat (digit_val c)"
  from digit_val_digit [OF c] have e1: "e < 10" unfolding e_def by arith
  from digit_val_digit [OF c] have e2: "''0123456789'' ! e = c" unfolding e_def by blast
  from digit_val_digit [OF c] have e3: "digit_val c = int e" unfolding e_def by arith
  note e = e1 e2 e3
  show ?case
  proof (cases "t = []")
    case True
    with e show ?thesis
      by (subst show_nat.simps) (simp add: read_num_def)
  next
    case False
    with snoc.prems(3) have hd: "hd t \<noteq> CHR ''0''" by (cases t) auto
    from snoc.IH [OF False t] hd have IH: "show_nat (nat (read_num t)) = t" by simp
    define m where "m = nat (read_num t)"
    from read_num_pos [OF False t hd] have m1: "0 < m" unfolding m_def by arith
    from read_num_pos [OF False t hd] have m2: "read_num t = int m" unfolding m_def by arith
    note m = m1 m2
    have "read_num (t @ [c]) = int (10 * m + e)"
      by (simp only: read_num_snoc m(2) e(3) of_nat_add of_nat_mult of_nat_numeral)
    then have n: "nat (read_num (t @ [c])) = 10 * m + e"
      by (simp only: nat_int)
    from m(1) have big: "\<not> 10 * m + e < 10" by simp
    from e(1) have dv: "(10 * m + e) div 10 = m" and md: "(10 * m + e) mod 10 = e" by simp_all
    have "show_nat (10 * m + e) = show_nat ((10 * m + e) div 10) @ [''0123456789'' ! ((10 * m + e) mod 10)]"
      using big by (subst show_nat.simps) simp
    then have "show_nat (10 * m + e) = show_nat m @ [c]"
      by (simp only: dv md e(2))
    with IH show ?thesis by (simp only: n m_def)
  qed
qed

lemma read_num_inj:
  assumes "is_array_index a" and "is_array_index b" and "read_num a = read_num b"
  shows "a = b"
proof -
  from assms(1) have "show_nat (nat (read_num a)) = a"
    by (intro show_nat_read_num) (auto simp: is_array_index_def)
  moreover from assms(2) have "show_nat (nat (read_num b)) = b"
    by (intro show_nat_read_num) (auto simp: is_array_index_def)
  ultimately show ?thesis using assms(3) by metis
qed

lemma js_ordered_snoc_other:
  "js_ordered ks \<Longrightarrow> k \<notin> set ks \<Longrightarrow> \<not> is_array_index k \<Longrightarrow> js_ordered (ks @ [k])"
  by (induction ks) (auto simp: list_all_iff)

lemma js_ordered_insert_index:
  "js_ordered (map fst ps) \<Longrightarrow> k \<notin> fst ` set ps \<Longrightarrow> is_array_index k \<Longrightarrow>
   js_ordered (map fst (obj_insert_index k v ps))"
proof (induction ps)
  case Nil
  then show ?case by simp
next
  case (Cons p ps)
  obtain k' v' where p: "p = (k', v')" by (cases p)
  from Cons.prems(1) have tail: "js_ordered (map fst ps)" by (simp add: p)
  from Cons.prems(2) have ne: "k \<noteq> k'" and fresh: "k \<notin> fst ` set ps" by (auto simp: p)
  show ?case
  proof (cases "is_array_index k' \<and> read_num k' < read_num k")
    case True
    have keys: "set (map fst (obj_insert_index k v ps)) = insert k (fst ` set ps)"
      by (simp add: set_obj_insert_index)
    from Cons.prems(1) True have "k' \<notin> fst ` set ps"
      and "\<forall>k'' \<in> fst ` set ps. is_array_index k'' \<longrightarrow> read_num k' < read_num k''"
      by (auto simp: p list_all_iff)
    with True ne keys Cons.IH [OF tail fresh Cons.prems(3)] show ?thesis
      by (auto simp: p list_all_iff)
  next
    case False
    have "read_num k < read_num k''" if "k'' \<in> set (map fst (p # ps))" "is_array_index k''" for k''
    proof (cases "k'' = k'")
      case True
      with that(2) False have "read_num k \<le> read_num k'" by auto
      moreover have "read_num k \<noteq> read_num k'"
        using read_num_inj [OF Cons.prems(3)] that(2) True ne by blast
      ultimately show ?thesis using True by simp
    next
      case other: False
      with that(1) have mem: "k'' \<in> fst ` set ps" by (auto simp: p)
      show ?thesis
      proof (cases "is_array_index k'")
        case True
        with Cons.prems(1) mem that(2) have "read_num k' < read_num k''"
          by (auto simp: p list_all_iff)
        moreover from True False have "read_num k \<le> read_num k'" by auto
        ultimately show ?thesis by simp
      next
        case False
        with Cons.prems(1) mem that(2) show ?thesis by (auto simp: p list_all_iff)
      qed
    qed
    then have less: "list_all (\<lambda>k''. is_array_index k'' \<longrightarrow> read_num k < read_num k'') (map fst (p # ps))"
      by (simp only: list_all_iff) blast
    have ins: "obj_insert_index k v (p # ps) = (k, v) # p # ps"
      using False by (auto simp: p)
    have notin: "k \<notin> set (map fst (p # ps))"
      using Cons.prems(2) by simp
    have "js_ordered (k # map fst (p # ps))"
      using notin less Cons.prems(1,3)
      by (simp only: js_ordered.simps if_True simp_thms)
    then show ?thesis by (simp only: ins list.map fst_conv)
  qed
qed

lemma js_ordered_put:
  assumes "js_ordered (map fst ob)"
  shows "js_ordered (map fst (obj_put ob k v))"
proof (cases "obj_has ob k")
  case True
  with assms show ?thesis by (simp add: obj_put_def map_fst_obj_replace)
next
  case False
  then have fresh: "k \<notin> fst ` set ob" by (simp add: obj_has_def map_of_eq_None_iff)
  show ?thesis
  proof (cases "is_array_index k")
    case True
    with False js_ordered_insert_index [OF assms fresh True] show ?thesis
      by (simp add: obj_put_def)
  next
    case noidx: False
    from js_ordered_snoc_other [OF assms _ noidx] fresh False noidx show ?thesis
      by (simp add: obj_put_def)
  qed
qed

section \<open>Properties of the Index Translator\<close>

lemma choice_kind: "choice (DirKind k) = None"
  by (cases k) (simp_all add: choice_def obj_get_def)

lemma choice_num:
  "choice (DirNum x) = (if x = 1 then Some '''' else if x = - 1 then Some ''-'' else None)"
  by (simp add: choice_def)




lemma generateIndex_example:
  "generateIndex
     [\<lparr>ix_name = ''_id_'', ix_key = [(''_id'', DirKind TwoD)], ix_unique = JUndefined\<rparr>,
      \<lparr>ix_name = ''a_1_b_-1'', ix_key = [(''a'', DirNum 1), (''b'', DirNum (- 1))],
       ix_unique = JBool False\<rparr>,
      \<lparr>ix_name = ''t_text_c_1'', ix_key = [(''t'', DirKind Text), (''c'', DirNum 1)],
       ix_unique = JNum 1\<rparr>,
      \<lparr>ix_name = ''c_hashed'', ix_key = [(''c'', DirKind Hashed)], ix_unique = JUndefined\<rparr>,
      \<lparr>ix_name = ''d_1'', ix_key = [(''d'', DirNum 1)], ix_unique = JBool True\<rparr>]
   = [\<lparr>fields' = ''_id'', ordered = True, unique = True\<rparr>,
      \<lparr>fields' = ''a,-b'', ordered = True, unique = False\<rparr>,
      \<lparr>fields' = ''undefinedt,c'', ordered = True, unique = False\<rparr>,
      \<lparr>fields' = ''c'', ordered = False, unique = False\<rparr>,
      \<lparr>fields' = ''d'', ordered = True, unique = True\<rparr>]"
  by (simp add: generateIndex_def choice_kind choice_num)

section \<open>Properties of the Schema Converter\<close>

lemma js_ordered_append: "js_ordered (ks @ ks') \<Longrightarrow> js_ordered ks"
  by (induction ks) (auto simp: list_all_iff split: if_splits)

lemma js_ordered_snoc:
  "js_ordered (ks @ [k]) \<Longrightarrow>
   k \<notin> set ks \<and> (is_array_index k \<longrightarrow> (\<forall>k' \<in> set ks. is_array_index k' \<and> read_num k' < read_num k))"
  by (induction ks) (auto simp: list_all_iff split: if_splits)

lemma obj_insert_index_snoc:
  "\<forall>k' \<in> fst ` set ob. is_array_index k' \<and> read_num k' < read_num k \<Longrightarrow>
   obj_insert_index k v ob = ob @ [(k, v)]"
  by (induction ob) auto

lemma obj_put_snoc:
  assumes "js_ordered (map fst ob @ [k])"
  shows "obj_put ob k v = ob @ [(k, v)]"
proof -
  from js_ordered_snoc [OF assms] have fresh: "k \<notin> fst ` set ob"
    and idx: "is_array_index k \<Longrightarrow> \<forall>k' \<in> fst ` set ob. is_array_index k' \<and> read_num k' < read_num k"
    by auto
  from fresh have "\<not> obj_has ob k" by (simp add: obj_has_def map_of_eq_None_iff)
  then show ?thesis
    using idx by (simp add: obj_put_def obj_insert_index_snoc)
qed

lemma field_column_eq:
  "field_column tags =
     (if js_join '','' (map fst tags) = ''Object''
      then Column (getKeyType ''Object'') None (Some (getMongoType ''Object''))
             (Some (case obj_get tags ''Object'' of None \<Rightarrow> [] | Some m \<Rightarrow> nested_columns m))
      else Column (getKeyType (js_join '','' (map fst tags))) None
             (Some (getMongoType (js_join '','' (map fst tags)))) None)"
proof (cases tags)
  case Nil
  then show ?thesis by simp
next
  case (Cons tm others)
  obtain t m where tm: "tm = (t, m)" by (cases tm)
  show ?thesis
  proof (cases "others = [] \<and> t = ''Object''")
    case True
    with Cons tm show ?thesis by (simp add: obj_get_def)
  next
    case False
    then have "map fst tags \<noteq> [''Object'']" using Cons tm by auto
    then have "js_join '','' (map fst tags) \<noteq> ''Object''"
      by (simp add: js_join_comma_eq_Object)
    with False Cons tm show ?thesis by auto
  qed
qed

lemma serializeCValue_nested:
  "(case mo of None \<Rightarrow> True | Some m \<Rightarrow> regular m) \<Longrightarrow>
   serializeCValue mo = Inr (case mo of None \<Rightarrow> [] | Some m \<Rightarrow> nested_columns m)"
  "js_ordered (map fst acc @ map fst sh) \<Longrightarrow>
   \<forall>(k, tags) \<in> set sh. k \<noteq> ''__proto__'' \<and> (\<forall>(t, m) \<in> set tags. regular m) \<Longrightarrow>
   serializeCValue_loop sh acc = Inr (acc @ field_columns sh)"
proof (induction mo and sh acc rule: serializeCValue_serializeCValue_loop.induct)
  case 1
  then show ?case by simp
next
  case 2
  then show ?case by simp
next
  case (3 tree)
  then show ?case by simp
next
  case (4 nestedresult)
  then show ?case by simp
next
  case (5 key tempv rest nestedresult)
  from "5.prems"(2) have key: "key \<noteq> ''__proto__''"
    and tags: "\<forall>(t, m) \<in> set tempv. regular m"
    and rest: "\<forall>(k, tags) \<in> set rest. k \<noteq> ''__proto__'' \<and> (\<forall>(t, m) \<in> set tags. regular m)"
    by auto
  from "5.prems"(1) have "js_ordered ((map fst nestedresult @ [key]) @ map fst rest)" by simp
  then have snoc: "js_ordered (map fst nestedresult @ [key])" by (rule js_ordered_append)
  have put: "obj_put nestedresult key c = nestedresult @ [(key, c)]" for c
    using snoc by (rule obj_put_snoc)
  have ord: "js_ordered (map fst (nestedresult @ [(key, c)]) @ map fst rest)" for c
    using "5.prems"(1) by simp
  show ?case
  proof (cases "js_join '','' (map fst tempv) = ''Object''")
    case True
    have sub: "case obj_get tempv ''Object'' of None \<Rightarrow> True | Some m \<Rightarrow> regular m"
      using tags by (auto simp: obj_get_def split: option.splits dest: map_of_SomeD)
    from "5.IH"(1) [OF refl key True sub]
    have inner: "serializeCValue (obj_get tempv ''Object'')
                   = Inr (case obj_get tempv ''Object'' of None \<Rightarrow> [] | Some m \<Rightarrow> nested_columns m)" .
    from "5.IH"(2) [OF refl key True inner] ord rest
    have "serializeCValue_loop rest
            (obj_put nestedresult key
               (Column (getKeyType (js_join '','' (map fst tempv))) None
                  (Some (getMongoType (js_join '','' (map fst tempv))))
                  (Some (case obj_get tempv ''Object'' of None \<Rightarrow> [] | Some m \<Rightarrow> nested_columns m))))
          = Inr ((nestedresult @ [(key, Column (getKeyType (js_join '','' (map fst tempv))) None
                  (Some (getMongoType (js_join '','' (map fst tempv))))
                  (Some (case obj_get tempv ''Object'' of None \<Rightarrow> [] | Some m \<Rightarrow> nested_columns m)))])
                 @ field_columns rest)"
      by (simp only: put)
    with True key inner show ?thesis
      by (simp add: Let_def field_column_eq del: field_column.simps)
  next
    case False
    from "5.IH"(3) [OF refl key False] ord rest
    have "serializeCValue_loop rest
            (obj_put nestedresult key
               (Column (getKeyType (js_join '','' (map fst tempv))) None
                  (Some (getMongoType (js_join '','' (map fst tempv)))) None))
          = Inr ((nestedresult @ [(key, Column (getKeyType (js_join '','' (map fst tempv))) None
                  (Some (getMongoType (js_join '','' (map fst tempv)))) None)])
                 @ field_columns rest)"
      by (simp only: put)
    with False key show ?thesis
      by (simp add: Let_def field_column_eq del: field_column.simps)
  qed
qed

lemma serializeCValue_snapshot:
  "regular_entry e \<Longrightarrow> typeKeys e = ''Object'' \<Longrightarrow>
   \<exists>v. value' e = Some v \<and> serializeCValue (obj_get v ''Object'') = Inr (snapshot_columns e)"
proof -
  assume r: "regular_entry e" and t: "typeKeys e = ''Object''"
  then obtain v where v: "value' e = Some v"
    and m: "case obj_get v ''Object'' of None \<Rightarrow> True | Some m \<Rightarrow> regular m"
    by (auto simp: regular_entry_def split: option.splits)
  from serializeCValue_nested(1) [OF m] v show ?thesis
    by (simp add: snapshot_columns_def snapshot_tree_def)
qed

lemma convertSchema_loop_result:
  "regular_aggregate agg \<Longrightarrow>
   convertSchema_loop agg n cols sink i =
     Inr (emit (filter (\<lambda>p. totalOccurrences (snd p) = n) agg) cols,
          register i (map snd (sparse_objects n agg)) sink,
          i + length (sparse_objects n agg))"
proof (induction agg arbitrary: cols sink i)
  case Nil
  then show ?case by (simp add: sparse_objects_def)
next
  case (Cons p agg)
  obtain k e where p: "p = (k, e)" by (cases p)
  from Cons.prems have rest: "regular_aggregate agg"
    and key: "k \<noteq> ''__proto__''" and reg: "regular_entry e"
    by (simp_all add: regular_aggregate_def p)
  note IH = Cons.IH [OF rest]
  show ?case
  proof (cases "typeKeys e = ''Object''")
    case True
    from serializeCValue_snapshot [OF reg True] obtain v where
      v: "value' e = Some v" "serializeCValue (obj_get v ''Object'') = Inr (snapshot_columns e)"
      by blast
    with True key show ?thesis
      using IH
      by (simp add: p Let_def typeKeys_def [symmetric] sparse_objects_def column_of_def
                    nested_entry_def assign_column_def)
  next
    case False
    with key show ?thesis
      using IH
      by (simp add: p Let_def typeKeys_def [symmetric] sparse_objects_def column_of_def
                    assign_column_def)
  qed
qed




lemma set_obj_put: "set (obj_put ob k v) \<subseteq> insert (k, v) (set ob)"
proof -
  have "set (obj_replace k v ps) \<subseteq> insert (k, v) (set ps)" for ps :: "'a obj"
    by (induction ps) (auto split: if_splits)
  moreover have "set (obj_insert_index k v ps) \<subseteq> insert (k, v) (set ps)" for ps :: "'a obj"
    by (induction ps) (auto split: if_splits)
  ultimately show ?thesis by (auto simp: obj_put_def)
qed









lemma convertSchema_result:
  "regular_aggregate agg \<Longrightarrow>
   convertSchema agg n [] flat =
     Inr (obj_put (emit (filter (\<lambda>p. totalOccurrences (snd p) = n) agg) []) ''$$'' carbin,
          register 1 (map snd (sparse_objects n agg)) [])"
  by (simp add: convertSchema_def convertSchema_loop_result)



text \<open>
  The columns of that aggregate, written out: the reserved entry ends the RowSchema
  and the tree of the one entry of the NestedSchemaSet, and stands nowhere below.
\<close>

lemma convertSchema_example:
  "convertSchema
      [(''name'', \<lparr>types = [(''String'', 10)], totalOccurrences = 10, value' = None\<rparr>),
       (''home'', \<lparr>types = [(''Object'', 10)], totalOccurrences = 10,
          value' = Some [(''Object'', MTree [(''city'', [(''String'', MTrue)]),
                      (''geo'', [(''Object'', MTree [(''lat'', [(''Number'', MTrue)])])])])]\<rparr>),
       (''work'', \<lparr>types = [(''Object'', 7)], totalOccurrences = 7,
          value' = Some [(''Object'', MTree [(''desk'',
                      [(''Object'', MTree [(''floor'', [(''Number'', MTrue)])])])])]\<rparr>)] 10 [] []
   = Inr ([(''name'', Column (TStr ''StrZero'') None (Some (TStr ''string'')) None),
           (''home'', Column (TStr ''CarBin'') None (Some (TStr ''object''))
              (Some [(''city'', Column (TStr ''StrZero'') None (Some (TStr ''string'')) None),
                     (''geo'', Column (TStr ''CarBin'') None (Some (TStr ''object''))
                        (Some [(''lat'', Column (TStr ''Sint32'') None (Some (TStr ''int'')) None)]))])),
           (''$$'', Column (TStr ''CarBin'') None None None)],
          [(''1'', \<lparr>columns =
              [(''desk'', Column (TStr ''CarBin'') None (Some (TStr ''object''))
                 (Some [(''floor'', Column (TStr ''Sint32'') None (Some (TStr ''int'')) None)])),
               (''$$'', Column (TStr ''CarBin'') None None None)]\<rparr>)])"
  by code_simp





text \<open>
  C8. The converter never reads its fourth argument: two calls that agree on the
  shape-preserving aggregate, the document count and the sink give the same columns
  and the same NestedSchemaSet (or end the same way), whatever the flat aggregates
  passed.
\<close>

theorem convertSchema_ignores_flat:
  "convertSchema interimResultsstrc documentsCount nestedschemaset interimResults1
   = convertSchema interimResultsstrc documentsCount nestedschemaset interimResults2"
  by (simp add: convertSchema_def)

section \<open>Properties of the flat Document Flattener\<close>

lemma replay_simps [simp]:
  "replay [] result = result"
  "replay (w # ws) result = replay ws (obj_put result (fst w) (snd w))"
  "replay (ws @ ws') result = replay ws' (replay ws result)"
  by (simp_all add: replay_def)

lemma show_nat_not_name:
  assumes "\<not> list_all is_digit k"
  shows "\<not> obj_has (zip (map show_nat [0 ..< n]) xs) k"
proof -
  have neq: "show_nat i \<noteq> k" for i
    using assms show_nat_digits [of i] by auto
  have "k \<notin> fst ` set (zip (map show_nat [0 ..< n]) xs)"
  proof
    assume "k \<in> fst ` set (zip (map show_nat [0 ..< n]) xs)"
    then obtain v where "(k, v) \<in> set (zip (map show_nat [0 ..< n]) xs)" by auto
    then have "k \<in> set (map show_nat [0 ..< n])" by (rule set_zip_leftD)
    then obtain i where "k = show_nat i" by auto
    with neq [of i] show False by simp
  qed
  then have "map_of (zip (map show_nat [0 ..< n]) xs) k = None"
    by (rule map_of_eq_None_iff [THEN iffD2])
  then show ?thesis by (simp add: obj_has_def)
qed

lemma for_in_unshadowed:
  assumes "unshadowed document"
  shows "\<not> obj_has (for_in document) ''hasOwnProperty''"
    and "\<forall>kv \<in> set (for_in document). unshadowed (snd kv)"
proof -
  show "\<not> obj_has (for_in document) ''hasOwnProperty''"
  proof (cases document)
    case (JArr xs)
    have "\<not> list_all is_digit ''hasOwnProperty''" by (simp add: is_digit_def)
    from show_nat_not_name [OF this] JArr show ?thesis by simp
  next
    case (JObj kvs)
    with assms show ?thesis by simp
  qed (simp_all add: obj_has_def)
  show "\<forall>kv \<in> set (for_in document). unshadowed (snd kv)"
  proof (cases document)
    case (JArr xs)
    with assms show ?thesis by (auto dest: set_zip_rightD)
  next
    case (JObj kvs)
    with assms show ?thesis by auto
  qed simp_all
qed

lemma serialize_runs:
  "unshadowed document \<Longrightarrow>
   \<forall>w \<in> set (writes ex esc rx document parentKey maxDepth). fst w \<noteq> ''__proto__'' \<Longrightarrow>
   serialize ex esc rx document parentKey maxDepth result
   = Inr (replay (writes ex esc rx document parentKey maxDepth) result)"
  "\<not> shadowed \<Longrightarrow> \<forall>kv \<in> set props. unshadowed (snd kv) \<Longrightarrow>
   \<forall>w \<in> set (writes_loop ex esc rx isArr props parentKey maxDepth). fst w \<noteq> ''__proto__'' \<Longrightarrow>
   serialize_loop ex esc rx isArr shadowed props parentKey maxDepth result
   = Inr (replay (writes_loop ex esc rx isArr props parentKey maxDepth) result)"
proof (induction ex esc rx document parentKey maxDepth result
         and ex esc rx isArr shadowed props parentKey maxDepth result
       rule: serialize_serialize_loop.induct)
  case (1 excludeSubkeys arrayEscape arrayRegex document parentKey maxDepth result)
  show ?case
  proof (cases "obj_has excludeSubkeys (js_replace arrayRegex ''.'' parentKey)")
    case True
    then show ?thesis by simp
  next
    case False
    from "1.IH" [OF False for_in_unshadowed [OF "1.prems"(1)]] "1.prems"(2) False
    show ?thesis by simp
  qed
next
  case (2 excludeSubkeys arrayEscape arrayRegex isArr shadowed parentKey maxDepth result)
  then show ?case by simp
next
  case (3 excludeSubkeys arrayEscape arrayRegex isArr shadowed key0 "value" rest parentKey maxDepth result)
  let ?key = "if isArr then arrayEscape @ key0 @ arrayEscape else key0"
  let ?result1 = "obj_put result (parentKey @ ?key) value"
  from "3.prems"(3) have here: "parentKey @ ?key \<noteq> ''__proto__''"
    by (simp add: Let_def)
  from "3.prems"(2) have val: "unshadowed value" and rest: "\<forall>kv \<in> set rest. unshadowed (snd kv)"
    by simp_all
  from "3.prems"(3) have later: "\<forall>w \<in> set (writes_loop excludeSubkeys arrayEscape arrayRegex isArr rest parentKey maxDepth). fst w \<noteq> ''__proto__''"
    by (simp add: Let_def)
  show ?case
  proof (cases "isHash value \<and> maxDepth > 1")
    case True
    from "3.prems"(3) True have below: "\<forall>w \<in> set (writes excludeSubkeys arrayEscape arrayRegex value (parentKey @ ?key @ ''.'') (maxDepth - 1)). fst w \<noteq> ''__proto__''"
      by (simp add: Let_def)
    have r1: "(if parentKey @ ?key = ''__proto__'' then result else ?result1) = ?result1"
      using here by simp
    from "3.IH"(1) [OF "3.prems"(1) refl _ refl True val below] here
    have s: "serialize excludeSubkeys arrayEscape arrayRegex value (parentKey @ ?key @ ''.'')
               (maxDepth - 1) ?result1
             = Inr (replay (writes excludeSubkeys arrayEscape arrayRegex value
                      (parentKey @ ?key @ ''.'') (maxDepth - 1)) ?result1)"
      by simp
    have s': "serialize excludeSubkeys arrayEscape arrayRegex value (parentKey @ ?key @ ''.'')
               (maxDepth - 1) (if parentKey @ ?key = ''__proto__'' then result else ?result1)
             = Inr (replay (writes excludeSubkeys arrayEscape arrayRegex value
                      (parentKey @ ?key @ ''.'') (maxDepth - 1)) ?result1)"
      using s here by simp
    from "3.IH"(2) [OF "3.prems"(1) refl _ refl True s' "3.prems"(1) rest later] here
    have "serialize_loop excludeSubkeys arrayEscape arrayRegex isArr shadowed rest parentKey maxDepth
            (replay (writes excludeSubkeys arrayEscape arrayRegex value
                      (parentKey @ ?key @ ''.'') (maxDepth - 1)) ?result1)
          = Inr (replay (writes_loop excludeSubkeys arrayEscape arrayRegex isArr rest parentKey maxDepth)
              (replay (writes excludeSubkeys arrayEscape arrayRegex value
                      (parentKey @ ?key @ ''.'') (maxDepth - 1)) ?result1))"
      by simp
    with True here "3.prems"(1) s show ?thesis
      by (simp add: Let_def del: serialize.simps writes.simps)
  next
    case False
    from "3.IH"(3) [OF "3.prems"(1) refl _ refl False "3.prems"(1) rest later] here
    have "serialize_loop excludeSubkeys arrayEscape arrayRegex isArr shadowed rest parentKey maxDepth
            ?result1
          = Inr (replay (writes_loop excludeSubkeys arrayEscape arrayRegex isArr rest parentKey maxDepth)
              ?result1)"
      by simp
    with False here "3.prems"(1) show ?thesis
      by (auto simp add: Let_def simp del: serialize.simps writes.simps)
  qed
qed

lemma dotfree_show_nat: "dotfree (show_nat n)"
proof -
  have "c \<noteq> CHR ''.''" if "is_digit c" for c
    using that by (auto simp: is_digit_def)
  with show_nat_digits [of n] show ?thesis
    unfolding dotfree_def list_all_iff by blast
qed

lemma dotfree_append [simp]: "dotfree (a @ b) \<longleftrightarrow> dotfree a \<and> dotfree b"
  by (auto simp: dotfree_def)

lemma for_in_dotfree:
  assumes "keys_dotfree document" and "dotfree esc" and "(key0, v) \<in> set (for_in document)"
  shows "dotfree (path_key esc (isArray document) key0) \<and> keys_dotfree v"
proof (cases document)
  case (JArr xs)
  with assms(3) have "v \<in> set xs" and "key0 \<in> set (map show_nat [0 ..< length xs])"
    by (auto dest: set_zip_rightD set_zip_leftD)
  with assms(1,2) JArr show ?thesis
    by (auto simp: path_key_def list_all_iff dotfree_show_nat)
next
  case (JObj kvs)
  with assms show ?thesis by (auto simp: path_key_def list_all_iff)
qed (use assms in auto)

lemma prefix_dot_dotfree:
  assumes "dotfree k" and "prefix (q @ ''.'') (k @ ''.'' @ r)"
  shows "q = k \<or> (\<exists>q'. q = k @ ''.'' @ q' \<and> prefix (q' @ ''.'') r)"
proof -
  from assms(2) obtain s where eq: "(q @ ''.'') @ s = k @ ''.'' @ r"
    by (auto simp: prefix_def)
  then have "q @ (''.'' @ s) = k @ (''.'' @ r)" by simp
  then obtain us where "(q = k @ us \<and> us @ ''.'' @ s = ''.'' @ r) \<or> (q @ us = k \<and> ''.'' @ s = us @ ''.'' @ r)"
    by (auto simp: append_eq_append_conv2)
  then show ?thesis
  proof
    assume a: "q = k @ us \<and> us @ ''.'' @ s = ''.'' @ r"
    show ?thesis
    proof (cases us)
      case Nil
      with a show ?thesis by simp
    next
      case (Cons c us')
      with a have "c = CHR ''.''" and "us' @ ''.'' @ s = r" by simp_all
      with a Cons show ?thesis by (auto simp: prefix_def)
    qed
  next
    assume b: "q @ us = k \<and> ''.'' @ s = us @ ''.'' @ r"
    show ?thesis
    proof (cases us)
      case Nil
      with b show ?thesis by simp
    next
      case (Cons c us')
      with b have "c = CHR ''.''" by simp
      with b Cons assms(1) show ?thesis by (auto simp: dotfree_def)
    qed
  qed
qed

lemma prefix_dot_dotfree_end:
  "dotfree k \<Longrightarrow> \<not> prefix (q @ ''.'') k"
  by (auto simp: dotfree_def prefix_def)

lemma writes_prefix_checked:
  "keys_dotfree document \<Longrightarrow> dotfree esc \<Longrightarrow>
   (p, v) \<in> set (writes ex esc rx document parentKey maxDepth) \<Longrightarrow>
   \<exists>r. p = parentKey @ r
     \<and> (\<forall>q. prefix (q @ ''.'') r \<longrightarrow> \<not> obj_has ex (js_replace rx ''.'' (parentKey @ q @ ''.'')))"
  "list_all (\<lambda>kv. dotfree (path_key esc isArr (fst kv)) \<and> keys_dotfree (snd kv)) props \<Longrightarrow>
   dotfree esc \<Longrightarrow>
   (p, v) \<in> set (writes_loop ex esc rx isArr props parentKey maxDepth) \<Longrightarrow>
   \<exists>r. p = parentKey @ r
     \<and> (\<forall>q. prefix (q @ ''.'') r \<longrightarrow> \<not> obj_has ex (js_replace rx ''.'' (parentKey @ q @ ''.'')))"
proof (induction ex esc rx document parentKey maxDepth and ex esc rx isArr props parentKey maxDepth
       arbitrary: p v and p v rule: writes_writes_loop.induct)
  case (1 ex esc rx document parentKey maxDepth)
  from "1.prems"(3) have open_: "\<not> obj_has ex (js_replace rx ''.'' parentKey)"
    and mem: "(p, v) \<in> set (writes_loop ex esc rx (isArray document) (for_in document) parentKey maxDepth)"
    by (auto split: if_splits)
  have "list_all (\<lambda>kv. dotfree (path_key esc (isArray document) (fst kv)) \<and> keys_dotfree (snd kv))
          (for_in document)"
    using for_in_dotfree [OF "1.prems"(1,2)] by (auto simp: list_all_iff)
  from "1.IH" [OF open_ this "1.prems"(2) mem] show ?case .
next
  case (2 ex esc rx isArr parentKey maxDepth)
  then show ?case by simp
next
  case (3 ex esc rx isArr key0 "value" rest parentKey maxDepth)
  let ?key = "path_key esc isArr key0"
  from "3.prems"(1) have key: "dotfree ?key" and val: "keys_dotfree value"
    and rest: "list_all (\<lambda>kv. dotfree (path_key esc isArr (fst kv)) \<and> keys_dotfree (snd kv)) rest"
    by simp_all
  from "3.prems"(3) consider
      (here) "p = parentKey @ ?key"
    | (below) "isHash value" "maxDepth > 1"
        "(p, v) \<in> set (writes ex esc rx value (parentKey @ ?key @ ''.'') (maxDepth - 1))"
    | (later) "(p, v) \<in> set (writes_loop ex esc rx isArr rest parentKey maxDepth)"
    by (auto simp: Let_def path_key_def split: if_splits)
  then show ?case
  proof cases
    case here
    with key show ?thesis by (auto simp: prefix_dot_dotfree_end)
  next
    case below
    have below': "(p, v) \<in> set (writes ex esc rx value (parentKey @ (if isArr then esc @ key0 @ esc else key0) @ ''.'') (maxDepth - 1))"
      using below(3) by (simp add: path_key_def)
    from below(3) have open_: "\<not> obj_has ex (js_replace rx ''.'' (parentKey @ ?key @ ''.''))"
      by (cases "obj_has ex (js_replace rx ''.'' (parentKey @ ?key @ ''.''))") simp_all
    from "3.IH"(1) [OF refl _ val "3.prems"(2) below'] below(1,2)
    obtain r where r: "p = (parentKey @ ?key @ ''.'') @ r"
      and checked: "\<And>q. prefix (q @ ''.'') r \<Longrightarrow>
        \<not> obj_has ex (js_replace rx ''.'' ((parentKey @ ?key @ ''.'') @ q @ ''.''))"
      unfolding path_key_def by blast
    have "\<not> obj_has ex (js_replace rx ''.'' (parentKey @ q @ ''.''))"
      if "prefix (q @ ''.'') (?key @ ''.'' @ r)" for q
    proof -
      from prefix_dot_dotfree [OF key that]
      consider "q = ?key" | q' where "q = ?key @ ''.'' @ q'" "prefix (q' @ ''.'') r"
        by blast
      then show ?thesis
      proof cases
        case 1
        with open_ show ?thesis by simp
      next
        case 2
        from checked [OF 2(2)] 2(1) show ?thesis by simp
      qed
    qed
    with r show ?thesis by (intro exI [of _ "?key @ ''.'' @ r"]) simp
  next
    case later
    from "3.IH"(2) [OF refl rest "3.prems"(2) later] show ?thesis .
  qed
qed


lemma replay_absent:
  "p \<notin> fst ` set ws \<Longrightarrow> obj_get (replay ws result) p = obj_get result p"
  by (induction ws arbitrary: result) auto

lemma excludeSubkeys_set_has:
  "obj_has (excludeSubkeys_set items) k \<longleftrightarrow> (\<exists>item \<in> set items. k = item @ ''.'')"
proof -
  have "obj_has (fold (\<lambda>item result. obj_put result (item @ ''.'') True) items acc) k
        \<longleftrightarrow> obj_has acc k \<or> (\<exists>item \<in> set items. k = item @ ''.'')" for acc
    by (induction items arbitrary: acc) auto
  then show ?thesis by (simp add: excludeSubkeys_set_def)
qed

lemma writes_shape:
  "(p, v) \<in> set (writes ex esc rx document parentKey maxDepth) \<Longrightarrow> \<exists>r. p = parentKey @ r"
  "(p, v) \<in> set (writes_loop ex esc rx isArr props parentKey maxDepth) \<Longrightarrow>
   \<exists>key0 r. key0 \<in> fst ` set props \<and> p = parentKey @ path_key esc isArr key0 @ r
            \<and> (r = [] \<or> (\<exists>r'. r = ''.'' @ r'))"
proof (induction ex esc rx document parentKey maxDepth and ex esc rx isArr props parentKey maxDepth
       arbitrary: p v and p v rule: writes_writes_loop.induct)
  case (1 ex esc rx document parentKey maxDepth)
  from "1.prems" have open_: "\<not> obj_has ex (js_replace rx ''.'' parentKey)"
    and mem: "(p, v) \<in> set (writes_loop ex esc rx (isArray document) (for_in document) parentKey maxDepth)"
    by (auto split: if_splits)
  from "1.IH" [OF open_ mem] show ?case by blast
next
  case (2 ex esc rx isArr parentKey maxDepth)
  then show ?case by simp
next
  case (3 ex esc rx isArr key0 "value" rest parentKey maxDepth)
  let ?key = "path_key esc isArr key0"
  from "3.prems" consider
      (here) "p = parentKey @ ?key"
    | (below) "isHash value" "maxDepth > 1"
        "(p, v) \<in> set (writes ex esc rx value (parentKey @ ?key @ ''.'') (maxDepth - 1))"
    | (later) "(p, v) \<in> set (writes_loop ex esc rx isArr rest parentKey maxDepth)"
    by (auto simp: Let_def path_key_def split: if_splits)
  then show ?case
  proof cases
    case here
    then show ?thesis
      by (intro exI [of _ key0] exI [of _ "[]"]) simp
  next
    case below
    have below': "(p, v) \<in> set (writes ex esc rx value (parentKey @ (if isArr then esc @ key0 @ esc else key0) @ ''.'') (maxDepth - 1))"
      using below(3) by (simp add: path_key_def)
    from "3.IH"(1) [OF refl _ below'] below(1,2)
    obtain r where "p = (parentKey @ ?key @ ''.'') @ r"
      unfolding path_key_def by blast
    then show ?thesis
      by (intro exI [of _ key0] exI [of _ "''.'' @ r"]) simp
  next
    case later
    from "3.IH"(2) [OF refl later] show ?thesis by auto
  qed
qed

lemma dotfree_split:
  assumes "dotfree a" and "dotfree b" and "a @ r1 = b @ r2"
    and "r1 = [] \<or> (\<exists>r'. r1 = ''.'' @ r')" and "r2 = [] \<or> (\<exists>r'. r2 = ''.'' @ r')"
  shows "a = b \<and> r1 = r2"
proof -
  have tw: "takeWhile (\<lambda>c. c \<noteq> CHR ''.'') (k @ r) = k"
    if "dotfree k" "r = [] \<or> (\<exists>r'. r = ''.'' @ r')" for k r
    using that by (induction k) (auto simp: dotfree_def)
  from tw [OF assms(1,4)] tw [OF assms(2,5)] assms(3) have "a = b" by simp
  with assms(3) show ?thesis by simp
qed

lemma distinct_map_show_nat: "distinct (map (\<lambda>i. esc @ show_nat i @ esc) [0 ..< n])"
  by (auto simp: distinct_map inj_on_def show_nat_inj)

lemma for_in_distinct:
  assumes "keys_distinct document"
  shows "distinct (map (\<lambda>kv. path_key esc (isArray document) (fst kv)) (for_in document))"
    and "\<forall>kv \<in> set (for_in document). keys_distinct (snd kv)"
proof -
  show "distinct (map (\<lambda>kv. path_key esc (isArray document) (fst kv)) (for_in document))"
  proof (cases document)
    case (JArr xs)
    have "map (\<lambda>kv. esc @ fst kv @ esc) (zip (map show_nat [0 ..< length xs]) xs)
          = map (\<lambda>i. esc @ show_nat i @ esc) [0 ..< length xs]"
      by (rule nth_equalityI) simp_all
    with JArr show ?thesis by (simp add: path_key_def distinct_map_show_nat)
  next
    case (JObj kvs)
    with assms show ?thesis by (simp add: path_key_def)
  qed simp_all
  show "\<forall>kv \<in> set (for_in document). keys_distinct (snd kv)"
  proof (cases document)
    case (JArr xs)
    with assms show ?thesis by (auto dest: set_zip_rightD)
  next
    case (JObj kvs)
    with assms show ?thesis by auto
  qed simp_all
qed


lemma writes_distinct:
  "keys_dotfree document \<Longrightarrow> keys_distinct document \<Longrightarrow> dotfree esc \<Longrightarrow>
   distinct (map fst (writes ex esc rx document parentKey maxDepth))"
  "\<forall>kv \<in> set props. dotfree (path_key esc isArr (fst kv)) \<and> keys_dotfree (snd kv)
       \<and> keys_distinct (snd kv) \<Longrightarrow>
   distinct (map (\<lambda>kv. path_key esc isArr (fst kv)) props) \<Longrightarrow> dotfree esc \<Longrightarrow>
   distinct (map fst (writes_loop ex esc rx isArr props parentKey maxDepth))"
proof (induction ex esc rx document parentKey maxDepth and ex esc rx isArr props parentKey maxDepth
       rule: writes_writes_loop.induct)
  case (1 ex esc rx document parentKey maxDepth)
  show ?case
  proof (cases "obj_has ex (js_replace rx ''.'' parentKey)")
    case True
    then show ?thesis by simp
  next
    case False
    have ok: "\<forall>kv \<in> set (for_in document).
        dotfree (path_key esc (isArray document) (fst kv)) \<and> keys_dotfree (snd kv)
        \<and> keys_distinct (snd kv)"
      using for_in_dotfree [OF "1.prems"(1,3)] for_in_distinct(2) [OF "1.prems"(2)]
      by auto
    from "1.IH" [OF False ok for_in_distinct(1) [OF "1.prems"(2)] "1.prems"(3)] False
    show ?thesis by simp
  qed
next
  case (2 ex esc rx isArr parentKey maxDepth)
  then show ?case by simp
next
  case (3 ex esc rx isArr key0 "value" rest parentKey maxDepth)
  let ?key = "path_key esc isArr key0"
  let ?below = "if isHash value \<and> maxDepth > 1
                then writes ex esc rx value (parentKey @ ?key @ ''.'') (maxDepth - 1) else []"
  let ?later = "writes_loop ex esc rx isArr rest parentKey maxDepth"
  have unfold: "writes_loop ex esc rx isArr ((key0, value) # rest) parentKey maxDepth
                = (parentKey @ ?key, value) # ?below @ ?later"
    by (simp add: Let_def path_key_def)
  from "3.prems"(1) have key: "dotfree ?key" and val: "keys_dotfree value" "keys_distinct value"
    and rest: "\<forall>kv \<in> set rest. dotfree (path_key esc isArr (fst kv)) \<and> keys_dotfree (snd kv)
                 \<and> keys_distinct (snd kv)"
    by simp_all
  from "3.prems"(2) have fresh: "?key \<notin> (\<lambda>kv. path_key esc isArr (fst kv)) ` set rest"
    and drest: "distinct (map (\<lambda>kv. path_key esc isArr (fst kv)) rest)"
    by simp_all
  have d_below: "distinct (map fst ?below)"
  proof (cases "isHash value \<and> maxDepth > 1")
    case True
    from "3.IH"(1) [OF refl True val "3.prems"(3)] True show ?thesis
      by (simp add: path_key_def)
  next
    case False
    then show ?thesis by auto
  qed
  have d_later: "distinct (map fst ?later)"
    by (rule "3.IH"(2) [OF refl rest drest "3.prems"(3)])
  have below_form: "\<exists>r. p = parentKey @ ?key @ ''.'' @ r" if "p \<in> fst ` set ?below" for p
  proof -
    from that obtain v where "(p, v) \<in> set ?below" by auto
    then have "(p, v) \<in> set (writes ex esc rx value (parentKey @ ?key @ ''.'') (maxDepth - 1))"
      by (auto split: if_splits)
    from writes_shape(1) [OF this] show ?thesis by auto
  qed
  have later_form: "\<exists>key1 r. key1 \<in> fst ` set rest \<and> path_key esc isArr key1 \<noteq> ?key
        \<and> dotfree (path_key esc isArr key1)
        \<and> p = parentKey @ path_key esc isArr key1 @ r \<and> (r = [] \<or> (\<exists>r'. r = ''.'' @ r'))"
    if "p \<in> fst ` set ?later" for p
  proof -
    from that obtain v where "(p, v) \<in> set ?later" by auto
    from writes_shape(2) [OF this] obtain key1 r where
      k1: "key1 \<in> fst ` set rest" "p = parentKey @ path_key esc isArr key1 @ r"
          "r = [] \<or> (\<exists>r'. r = ''.'' @ r')"
      by blast
    from k1(1) fresh have "path_key esc isArr key1 \<noteq> ?key" by force
    moreover from k1(1) rest have "dotfree (path_key esc isArr key1)" by force
    ultimately show ?thesis using k1 by blast
  qed
  have here_not_below: "parentKey @ ?key \<notin> fst ` set ?below"
  proof
    assume "parentKey @ ?key \<in> fst ` set ?below"
    from below_form [OF this] show False by simp
  qed
  have here_not_later: "parentKey @ ?key \<notin> fst ` set ?later"
  proof
    assume "parentKey @ ?key \<in> fst ` set ?later"
    from later_form [OF this] obtain key1 r where
      k1: "path_key esc isArr key1 \<noteq> ?key" "dotfree (path_key esc isArr key1)"
          "parentKey @ ?key = parentKey @ path_key esc isArr key1 @ r"
          "r = [] \<or> (\<exists>r'. r = ''.'' @ r')"
      by blast
    from k1(3) have "?key @ [] = path_key esc isArr key1 @ r" by simp
    from dotfree_split [OF key k1(2) this _ k1(4)] k1(1) show False by simp
  qed
  have below_not_later: "fst ` set ?below \<inter> fst ` set ?later = {}"
  proof (rule ccontr)
    assume "fst ` set ?below \<inter> fst ` set ?later \<noteq> {}"
    then obtain p where p: "p \<in> fst ` set ?below" "p \<in> fst ` set ?later" by blast
    from below_form [OF p(1)] obtain r1 where r1: "p = parentKey @ ?key @ ''.'' @ r1" by blast
    from later_form [OF p(2)] obtain key1 r where
      k1: "path_key esc isArr key1 \<noteq> ?key" "dotfree (path_key esc isArr key1)"
          "p = parentKey @ path_key esc isArr key1 @ r"
          "r = [] \<or> (\<exists>r'. r = ''.'' @ r')"
      by blast
    from r1 k1(3) have "?key @ (''.'' @ r1) = path_key esc isArr key1 @ r" by simp
    moreover have "''.'' @ r1 = [] \<or> (\<exists>r'. ''.'' @ r1 = ''.'' @ r')" by blast
    ultimately have "?key = path_key esc isArr key1"
      using dotfree_split [OF key k1(2) _ _ k1(4)] by blast
    with k1(1) show False by simp
  qed
  show ?case
    unfolding unfold
    using d_below d_later here_not_below here_not_later below_not_later
    by (simp del: writes.simps writes_loop.simps)
qed

lemma writes_loop_contains:
  "(key0, c) \<in> set props \<Longrightarrow>
   (parentKey @ path_key esc isArr key0, c) \<in> set (writes_loop ex esc rx isArr props parentKey maxDepth)
   \<and> (isHash c \<and> maxDepth > 1 \<longrightarrow>
        set (writes ex esc rx c (parentKey @ path_key esc isArr key0 @ ''.'') (maxDepth - 1))
        \<subseteq> set (writes_loop ex esc rx isArr props parentKey maxDepth))"
proof (induction props)
  case Nil
  then show ?case by simp
next
  case (Cons kv props)
  obtain k1 v1 where kv: "kv = (k1, v1)" by (cases kv)
  show ?case
  proof (cases "(key0, c) = (k1, v1)")
    case True
    then show ?thesis
      by (auto simp: kv Let_def path_key_def simp del: writes.simps)
  next
    case False
    with Cons.prems have "(key0, c) \<in> set props" by (auto simp: kv)
    from Cons.IH [OF this] show ?thesis
      by (auto simp: kv Let_def simp del: writes.simps)
  qed
qed


lemma for_in_isHash: "for_in c \<noteq> [] \<Longrightarrow> isHash c"
  by (cases c) (simp_all add: isHash_def)

lemma children_lookup:
  "map_of (children esc document) seg = Some c \<Longrightarrow>
   \<exists>key0. (key0, c) \<in> set (for_in document) \<and> seg = path_key esc (isArray document) key0"
proof -
  assume "map_of (children esc document) seg = Some c"
  then have "(seg, c) \<in> set (children esc document)" by (rule map_of_SomeD)
  then obtain kv where "kv \<in> set (for_in document)"
      "seg = path_key esc (isArray document) (fst kv)" "c = snd kv"
    by (auto simp: children_def)
  then show ?thesis by (intro exI [of _ "fst kv"]) simp
qed

lemma writes_contains_value_at:
  "value_at esc document (seg # segs) = Some v \<Longrightarrow>
   \<not> obj_has ex (js_replace rx ''.'' parentKey) \<Longrightarrow>
   (\<forall>n. 0 < n \<and> n \<le> length segs \<longrightarrow>
        \<not> obj_has ex (js_replace rx ''.''
             (parentKey @ js_join ''.'' (take n (seg # segs)) @ ''.''))) \<Longrightarrow>
   segs = [] \<or> int (length segs) < maxDepth \<Longrightarrow>
   (parentKey @ js_join ''.'' (seg # segs), v) \<in> set (writes ex esc rx document parentKey maxDepth)"
proof (induction segs arbitrary: document seg parentKey maxDepth)
  case Nil
  from Nil.prems(1) have "map_of (children esc document) seg = Some v"
    by (auto split: option.splits)
  from children_lookup [OF this] obtain key0 where
    k: "(key0, v) \<in> set (for_in document)" "seg = path_key esc (isArray document) key0"
    by blast
  from writes_loop_contains [OF k(1)] k(2) Nil.prems(2) show ?case by simp
next
  case (Cons seg2 segs)
  from Cons.prems(1) obtain c where c: "map_of (children esc document) seg = Some c"
    and deeper: "value_at esc c (seg2 # segs) = Some v"
    by (auto split: option.splits)
  from children_lookup [OF c] obtain key0 where
    k: "(key0, c) \<in> set (for_in document)" "seg = path_key esc (isArray document) key0"
    by blast
  from deeper have "children esc c \<noteq> []" by (auto split: option.splits)
  then have hash: "isHash c" by (intro for_in_isHash) (auto simp: children_def)
  from Cons.prems(4) have depth: "maxDepth > 1" and depth':
    "segs = [] \<or> int (length segs) < maxDepth - 1"
    by auto
  have open1: "\<not> obj_has ex (js_replace rx ''.'' (parentKey @ seg @ ''.''))"
    using Cons.prems(3) [rule_format, of 1] by simp
  have open2: "\<forall>n. 0 < n \<and> n \<le> length segs \<longrightarrow>
        \<not> obj_has ex (js_replace rx ''.''
             ((parentKey @ seg @ ''.'') @ js_join ''.'' (take n (seg2 # segs)) @ ''.''))"
  proof (intro allI impI)
    fix n assume n: "0 < n \<and> n \<le> length segs"
    then obtain m where m: "n = Suc m" by (cases n) auto
    have "take (Suc n) (seg # seg2 # segs) = seg # seg2 # take m segs"
      by (simp add: m)
    moreover have "take n (seg2 # segs) = seg2 # take m segs" by (simp add: m)
    moreover have "\<not> obj_has ex (js_replace rx ''.''
             (parentKey @ js_join ''.'' (take (Suc n) (seg # seg2 # segs)) @ ''.''))"
      using Cons.prems(3) [rule_format, of "Suc n"] n by simp
    ultimately show "\<not> obj_has ex (js_replace rx ''.''
             ((parentKey @ seg @ ''.'') @ js_join ''.'' (take n (seg2 # segs)) @ ''.''))"
      by simp
  qed
  from Cons.IH [OF deeper open1 open2 depth']
  have "((parentKey @ seg @ ''.'') @ js_join ''.'' (seg2 # segs), v)
          \<in> set (writes ex esc rx c (parentKey @ seg @ ''.'') (maxDepth - 1))" .
  moreover from writes_loop_contains [OF k(1), where parentKey = parentKey and esc = esc
      and isArr = "isArray document" and ex = ex and rx = rx and maxDepth = maxDepth]
    hash depth k(2)
  have "set (writes ex esc rx c (parentKey @ seg @ ''.'') (maxDepth - 1))
          \<subseteq> set (writes_loop ex esc rx (isArray document) (for_in document) parentKey maxDepth)"
    by simp
  ultimately show ?case using Cons.prems(2) by auto
qed

lemma replay_distinct:
  "distinct (map fst ws) \<Longrightarrow> (p, v) \<in> set ws \<Longrightarrow> obj_get (replay ws result) p = Some v"
proof (induction ws arbitrary: result)
  case Nil
  then show ?case by simp
next
  case (Cons w ws)
  show ?case
  proof (cases "w = (p, v)")
    case True
    with Cons.prems(1) have "p \<notin> fst ` set ws" by auto
    with True show ?thesis by (simp add: replay_absent)
  next
    case False
    with Cons.prems have "distinct (map fst ws)" "(p, v) \<in> set ws" by auto
    from Cons.IH [OF this] show ?thesis by simp
  qed
qed


lemma regex_plain_dotfree: "regex_plain marker \<Longrightarrow> dotfree marker"
  by (auto simp: regex_plain_def dotfree_def list_all_iff)

lemma top_writes_not_proto:
  assumes "\<not> obj_has doc ''__proto__''"
    and "w \<in> set (writes ex esc rx (JObj doc) [] maxDepth)"
  shows "fst w \<noteq> ''__proto__''"
proof
  assume eq: "fst w = ''__proto__''"
  obtain p v where w: "w = (p, v)" by (cases w)
  from assms(2) w have "(p, v) \<in> set (writes_loop ex esc rx False doc [] maxDepth)"
    by (auto split: if_splits)
  from writes_shape(2) [OF this] obtain key0 r where
    k: "key0 \<in> fst ` set doc" "p = key0 @ r" "r = [] \<or> (\<exists>r'. r = ''.'' @ r')"
    by (auto simp: path_key_def)
  from k(3) show False
  proof
    assume "r = []"
    with k(1,2) eq w have "''__proto__'' \<in> fst ` set doc" by simp
    with assms(1) show False by (simp add: obj_has_def map_of_eq_None_iff)
  next
    assume "\<exists>r'. r = ''.'' @ r'"
    then have "CHR ''.'' \<in> set (key0 @ r)" by auto
    with k(2) eq w show False by simp
  qed
qed

lemma serializeDoc_result:
  assumes "regex_plain arrayEscape" and "unshadowed (JObj doc)" and "\<not> obj_has doc ''__proto__''"
  shows "serializeDoc arrayEscape doc maxDepth ex
         = Inr (replay (writes ex arrayEscape (MarkerRegExp arrayEscape ''.'') (JObj doc) [] maxDepth) [])"
proof -
  have "\<forall>w \<in> set (writes ex arrayEscape (MarkerRegExp arrayEscape ''.'') (JObj doc) [] maxDepth).
          fst w \<noteq> ''__proto__''"
    using top_writes_not_proto [OF assms(3)] by blast
  from serialize_runs(1) [OF assms(2) this] assms(1) show ?thesis
    by (simp only: serializeDoc_def new_RegExp_def if_True sum.case)
qed

lemma serializeDoc_omits:
  assumes "regex_plain arrayEscape" and "well_keyed doc"
    and "item \<in> set excludeSubkeys"
    and "normalized arrayEscape (q @ ''.'') = item @ ''.''"
    and "prefix (q @ ''.'') p"
  shows "obj_get (replay (writes (excludeSubkeys_set excludeSubkeys) arrayEscape
                     (MarkerRegExp arrayEscape ''.'') (JObj doc) [] maxDepth) []) p = None"
proof -
  let ?ex = "excludeSubkeys_set excludeSubkeys"
  let ?ws = "writes ?ex arrayEscape (MarkerRegExp arrayEscape ''.'') (JObj doc) [] maxDepth"
  from assms(2) have df: "keys_dotfree (JObj doc)" by (simp add: well_keyed_def)
  have "p \<notin> fst ` set ?ws"
  proof
    assume "p \<in> fst ` set ?ws"
    then obtain v where "(p, v) \<in> set ?ws" by auto
    from writes_prefix_checked(1) [OF df regex_plain_dotfree [OF assms(1)] this] assms(5)
    have "\<not> obj_has ?ex (js_replace (MarkerRegExp arrayEscape ''.'') ''.'' (q @ ''.''))" by auto
    with assms(3,4) show False by (auto simp: excludeSubkeys_set_has normalized_def)
  qed
  then have "obj_get (replay ?ws []) p = obj_get [] p" by (rule replay_absent)
  then show ?thesis by simp
qed

lemma serializeDoc_records:
  assumes "regex_plain arrayEscape" and "well_keyed doc"
    and "value_at arrayEscape (JObj doc) (seg # segs) = Some v"
    and "segs = [] \<or> int (length (seg # segs)) \<le> maxDepth"
    and "\<forall>n. 0 < n \<and> n \<le> length segs \<longrightarrow>
           \<not> obj_has (excludeSubkeys_set excludeSubkeys)
               (normalized arrayEscape (js_join ''.'' (take n (seg # segs)) @ ''.''))"
  shows "obj_get (replay (writes (excludeSubkeys_set excludeSubkeys) arrayEscape
                     (MarkerRegExp arrayEscape ''.'') (JObj doc) [] maxDepth) [])
           (js_join ''.'' (seg # segs)) = Some v"
proof -
  let ?ex = "excludeSubkeys_set excludeSubkeys"
  let ?rx = "MarkerRegExp arrayEscape ''.''"
  let ?ws = "writes ?ex arrayEscape ?rx (JObj doc) [] maxDepth"
  from assms(2) have df: "keys_dotfree (JObj doc)" and di: "keys_distinct (JObj doc)"
    by (simp_all add: well_keyed_def)
  have top: "\<not> obj_has ?ex (js_replace ?rx ''.'' [])"
    by (simp add: excludeSubkeys_set_has)
  have open_: "\<forall>n. 0 < n \<and> n \<le> length segs \<longrightarrow>
      \<not> obj_has ?ex (js_replace ?rx ''.'' ([] @ js_join ''.'' (take n (seg # segs)) @ ''.''))"
    using assms(5) by (simp add: normalized_def)
  from assms(4) have depth: "segs = [] \<or> int (length segs) < maxDepth" by auto
  from writes_contains_value_at [OF assms(3) top open_ depth]
  have mem: "(js_join ''.'' (seg # segs), v) \<in> set ?ws" by simp
  have "distinct (map fst ?ws)"
    by (rule writes_distinct(1) [OF df di regex_plain_dotfree [OF assms(1)]])
  from replay_distinct [OF this mem, of "[]"] show ?thesis .
qed

text \<open>
  C2, as the code has it. Let the escape marker be plain and the document well keyed.
  When an accumulated path followed by a dot becomes, by the replacement that the
  flattener applies (\<open>normalized\<close>), an item of \<open>excludeSubkeys\<close> followed by a dot,
  then the flattener runs to its end and no path that continues the accumulated path
  after a dot is in its result: every strict descendant is omitted. The path itself is
  not omitted on that account: when it is a position of the document within the depth
  budget and none of its proper ancestors is excluded in the same way, the result
  holds it with its raw value.
\<close>

theorem serializeDoc_omits_below_excluded:
  assumes "regex_plain arrayEscape" and "well_keyed doc"
    and "item \<in> set excludeSubkeys"
    and "normalized arrayEscape (q @ ''.'') = item @ ''.''"
  shows "\<exists>result. serializeDoc arrayEscape doc maxDepth (excludeSubkeys_set excludeSubkeys)
                     = Inr result
           \<and> (\<forall>p. prefix (q @ ''.'') p \<longrightarrow> obj_get result p = None)
           \<and> (\<forall>seg segs v.
                 q = js_join ''.'' (seg # segs)
                 \<and> value_at arrayEscape (JObj doc) (seg # segs) = Some v
                 \<and> (segs = [] \<or> int (length (seg # segs)) \<le> maxDepth)
                 \<and> (\<forall>n. 0 < n \<and> n \<le> length segs \<longrightarrow>
                        \<not> obj_has (excludeSubkeys_set excludeSubkeys)
                            (normalized arrayEscape (js_join ''.'' (take n (seg # segs)) @ ''.'')))
                 \<longrightarrow> obj_get result q = Some v)"
proof -
  let ?ex = "excludeSubkeys_set excludeSubkeys"
  let ?result = "replay (writes ?ex arrayEscape (MarkerRegExp arrayEscape ''.'') (JObj doc) []
                   maxDepth) []"
  from assms(2) have "unshadowed (JObj doc)" "\<not> obj_has doc ''__proto__''"
    by (simp_all add: well_keyed_def)
  from serializeDoc_result [OF assms(1) this]
  have res: "serializeDoc arrayEscape doc maxDepth ?ex = Inr ?result" .
  have below: "obj_get ?result p = None" if "prefix (q @ ''.'') p" for p
    using assms that by (rule serializeDoc_omits)
  have self: "obj_get ?result q = Some v"
    if "q = js_join ''.'' (seg # segs)"
      "value_at arrayEscape (JObj doc) (seg # segs) = Some v"
      "segs = [] \<or> int (length (seg # segs)) \<le> maxDepth"
      "\<forall>n. 0 < n \<and> n \<le> length segs \<longrightarrow>
           \<not> obj_has ?ex (normalized arrayEscape (js_join ''.'' (take n (seg # segs)) @ ''.''))"
    for seg segs v
    using serializeDoc_records [OF assms(1,2) that(2,3,4)] that(1) by simp
  from res below self show ?thesis by blast
qed

theorem serializeDoc_omits_below_excluded_witness:
  "\<exists>result. serializeDoc ''XX'' [(''a'', JArr [JObj [(''b'', JObj [(''c'', JNum 1)])]])] 99
               (excludeSubkeys_set [''a.b'']) = Inr result
     \<and> obj_get result ''a.XX0XX.b.c'' = None
     \<and> obj_get result ''a.XX0XX.b'' = Some (JObj [(''c'', JNum 1)])"
proof -
  let ?doc = "[(''a'', JArr [JObj [(''b'', JObj [(''c'', JNum 1)])]])]"
  have 1: "regex_plain ''XX''" by (simp add: regex_plain_def)
  have 2: "well_keyed ?doc" by (simp add: well_keyed_def dotfree_def obj_has_def)
  have 3: "''a.b'' \<in> set [''a.b'']" by simp
  have 4: "normalized ''XX'' (''a.XX0XX.b'' @ ''.'') = ''a.b'' @ ''.''" by code_simp
  have 5: "prefix (''a.XX0XX.b'' @ ''.'') ''a.XX0XX.b.c''" by simp
  have 6: "''a.XX0XX.b'' = js_join ''.'' (''a'' # [''XX0XX'', ''b''])" by simp
  have 7: "value_at ''XX'' (JObj ?doc) (''a'' # [''XX0XX'', ''b'']) = Some (JObj [(''c'', JNum 1)])"
    by (simp add: children_def path_key_def show_nat.simps)
  have a1: "\<not> obj_has (excludeSubkeys_set [''a.b''])
              (normalized ''XX'' (js_join ''.'' (take (Suc 0) (''a'' # [''XX0XX'', ''b''])) @ ''.''))"
    by code_simp
  have a2: "\<not> obj_has (excludeSubkeys_set [''a.b''])
              (normalized ''XX'' (js_join ''.'' (take (Suc (Suc 0)) (''a'' # [''XX0XX'', ''b''])) @ ''.''))"
    by code_simp
  have 8: "\<forall>n. 0 < n \<and> n \<le> length [''XX0XX'', ''b''] \<longrightarrow>
             \<not> obj_has (excludeSubkeys_set [''a.b''])
                 (normalized ''XX'' (js_join ''.'' (take n (''a'' # [''XX0XX'', ''b''])) @ ''.''))"
  proof (intro allI impI)
    fix n :: nat
    assume "0 < n \<and> n \<le> length [''XX0XX'', ''b'']"
    then have "n = Suc 0 \<or> n = Suc (Suc 0)" by auto
    with a1 a2 show "\<not> obj_has (excludeSubkeys_set [''a.b''])
                 (normalized ''XX'' (js_join ''.'' (take n (''a'' # [''XX0XX'', ''b''])) @ ''.''))"
      by blast
  qed
  from serializeDoc_omits_below_excluded [OF 1 2 3 4, of 99]
  obtain result where res: "serializeDoc ''XX'' ?doc 99 (excludeSubkeys_set [''a.b'']) = Inr result"
    and below: "\<forall>p. prefix (''a.XX0XX.b'' @ ''.'') p \<longrightarrow> obj_get result p = None"
    and self: "\<forall>seg segs v.
                 ''a.XX0XX.b'' = js_join ''.'' (seg # segs)
                 \<and> value_at ''XX'' (JObj ?doc) (seg # segs) = Some v
                 \<and> (segs = [] \<or> int (length (seg # segs)) \<le> 99)
                 \<and> (\<forall>n. 0 < n \<and> n \<le> length segs \<longrightarrow>
                        \<not> obj_has (excludeSubkeys_set [''a.b''])
                            (normalized ''XX'' (js_join ''.'' (take n (seg # segs)) @ ''.'')))
                 \<longrightarrow> obj_get result ''a.XX0XX.b'' = Some v"
    by blast
  from below 5 have b: "obj_get result ''a.XX0XX.b.c'' = None" by blast
  have 9: "[''XX0XX'', ''b''] = [] \<or> int (length (''a'' # [''XX0XX'', ''b''])) \<le> 99" by simp
  have s: "obj_get result ''a.XX0XX.b'' = Some (JObj [(''c'', JNum 1)])"
    by (rule self [rule_format, of "''a''" "[''XX0XX'', ''b'']" "JObj [(''c'', JNum 1)]"])
       (intro conjI 6 7 8 9)
  from res b s show ?thesis by blast
qed

text \<open>
  The claim as stated fails in two ways. With \<open>excludeSubkeys = ["a.b"]\<close> the path
  \<open>a.b\<close> itself is in the output of \<open>{a: {b: {c: 1}}}\<close>, with its raw value, although
  the path followed by a dot is in the exclude set. And for \<open>{a: [[{b: {c: 1}}]]}\<close>,
  an array directly in an array, the replacement takes away the first ordinal only, so
  that the subtree under \<open>b\<close> is not recognised as excluded and \<open>a.XX0XX.XX0XX.b.c\<close> is
  in the output.
\<close>

theorem serializeDoc_keeps_excluded_parent:
  "serializeDoc ''XX'' [(''a'', JObj [(''b'', JObj [(''c'', JNum 1)])])] 99
      (excludeSubkeys_set [''a.b''])
   = Inr [(''a'', JObj [(''b'', JObj [(''c'', JNum 1)])]), (''a.b'', JObj [(''c'', JNum 1)])]
   \<and> normalized ''XX'' ''a.b.'' = ''a.b.''
   \<and> obj_has (excludeSubkeys_set [''a.b'']) ''a.b.''
   \<and> serializeDoc ''XX'' [(''a'', JArr [JArr [JObj [(''b'', JObj [(''c'', JNum 1)])]]])] 99
      (excludeSubkeys_set [''a.b''])
   = Inr [(''a'', JArr [JArr [JObj [(''b'', JObj [(''c'', JNum 1)])]]]),
          (''a.XX0XX'', JArr [JObj [(''b'', JObj [(''c'', JNum 1)])]]),
          (''a.XX0XX.XX0XX'', JObj [(''b'', JObj [(''c'', JNum 1)])]),
          (''a.XX0XX.XX0XX.b'', JObj [(''c'', JNum 1)]),
          (''a.XX0XX.XX0XX.b.c'', JNum 1)]
   \<and> normalized ''XX'' ''a.XX0XX.XX0XX.b.'' = ''a.XX0XX.b.''"
  by code_simp



section \<open>Properties of the shape-preserving Per-Document Analyzer\<close>

text \<open>
  C4. The claim asks that each top-level field classified as \<open>Object\<close> gets a tree
  of its own subfields. The code does not do that: for the document
  \<open>{a: {x: 1}, b: {y: 2}}\<close> both fields get the one shared tree, which holds \<open>x\<close> and
  \<open>y\<close>.
\<close>

theorem analyseDocumentterark_shares_recurresult:
  "docResultterark 99 [(''a'', JObj [(''x'', JNum 1)]), (''b'', JObj [(''y'', JNum 2)])]
   = Inr [(''a'', [(''Object'', MTree [(''x'', [(''Number'', MTrue)]), (''y'', [(''Number'', MTrue)])])]),
          (''b'', [(''Object'', MTree [(''x'', [(''Number'', MTrue)]), (''y'', [(''Number'', MTrue)])])])]"
  by code_simp

section \<open>Properties of the Aggregate Merger\<close>


lemma js_get_cases:
  obtains (own) v where "obj_get ob k = Some v" "js_get ob k = Own v"
  | (proto) "obj_get ob k = None" "k = ''__proto__''" "js_get ob k = Prototype"
  | (member) "obj_get ob k = None" "k \<noteq> ''__proto__''" "k \<in> set Object_prototype"
      "js_get ob k = Member"
  | (undefined) "obj_get ob k = None" "\<not> reserved k" "js_get ob k = Undefined"
proof (cases "obj_get ob k")
  case (Some v)
  then show ?thesis using own by (simp add: js_get_def)
next
  case None
  show ?thesis
  proof (cases "k = ''__proto__''")
    case True
    with None show ?thesis using proto by (simp add: js_get_def)
  next
    case False
    show ?thesis
    proof (cases "k \<in> set Object_prototype")
      case True
      with None False show ?thesis using member by (simp add: js_get_def)
    next
      case notin: False
      with None False show ?thesis using undefined by (simp add: js_get_def reserved_def)
    qed
  qed
qed





lemma reduceDocumentsterark_Inr:
  assumes "cursor_reduce (reduceDocumentsterark maxDepth) acc (doc # docs) = Inr acc'"
  obtains r acc1 where "docResultterark maxDepth doc = Inr r"
    and "mergeDocumentterark r acc = Inr acc1"
    and "cursor_reduce (reduceDocumentsterark maxDepth) acc1 docs = Inr acc'"
proof -
  from assms obtain acc1 where step: "reduceDocumentsterark maxDepth acc doc = Inr acc1"
    and rest: "cursor_reduce (reduceDocumentsterark maxDepth) acc1 docs = Inr acc'"
    by (cases "reduceDocumentsterark maxDepth acc doc") simp_all
  from step obtain r where "docResultterark maxDepth doc = Inr r"
    "mergeDocumentterark r acc = Inr acc1"
    by (cases "docResultterark maxDepth doc") (simp_all add: reduceDocumentsterark_def)
  with rest that show ?thesis by blast
qed





section \<open>The shape-preserving scan runs to its end on scannable documents\<close>

lemma varietyTypeOf_unreserved: "\<not> reserved (varietyTypeOf v)"
  by (cases v) (simp_all add: varietyTypeOf_def js_toUpperCase_def reserved_def Object_prototype_def)

lemma varietyTypeOf_Object: "varietyTypeOf v = ''Object'' \<Longrightarrow> \<exists>kvs. v = JObj kvs"
  by (cases v) (simp_all add: varietyTypeOf_def js_toUpperCase_def)

lemma replace_dot_digits_dotfree: "CHR ''.'' \<notin> set k \<Longrightarrow> replace_dot_digits k = k"
  by (induction k rule: replace_dot_digits.induct) auto

lemma replace_dot_digits_dot: "CHR ''.'' \<in> set k \<Longrightarrow> CHR ''.'' \<in> set (replace_dot_digits k)"
  by (induction k rule: replace_dot_digits.induct) auto

lemma replace_dot_digits_proto:
  "k \<noteq> ''__proto__'' \<Longrightarrow> replace_dot_digits k \<noteq> ''__proto__''"
proof
  assume ne: "k \<noteq> ''__proto__''" and eq: "replace_dot_digits k = ''__proto__''"
  show False
  proof (cases "CHR ''.'' \<in> set k")
    case True
    from replace_dot_digits_dot [OF this] eq show False by simp
  next
    case False
    from replace_dot_digits_dotfree [OF this] eq ne show False by simp
  qed
qed

lemma serializeterark_loop_returns:
  "\<forall>kv \<in> set props. fst kv \<noteq> ''__proto__'' \<Longrightarrow>
   \<exists>result'. serializeterark_loop False props [] result = Inr result'
      \<and> set result' \<subseteq> set result \<union> set props"
proof (induction props arbitrary: result)
  case Nil
  then show ?case by simp
next
  case (Cons kv props)
  obtain key v where kv: "kv = (key, v)" by (cases kv)
  from Cons.prems have key: "key \<noteq> ''__proto__''"
    and rest: "\<forall>kv \<in> set props. fst kv \<noteq> ''__proto__''"
    by (simp_all add: kv)
  from Cons.IH [OF rest, of "obj_put result key v"] obtain result' where
    r: "serializeterark_loop False props [] (obj_put result key v) = Inr result'"
       "set result' \<subseteq> set (obj_put result key v) \<union> set props"
    by blast
  from r(2) set_obj_put [of result key v]
  have "set result' \<subseteq> set result \<union> set (kv # props)" by (auto simp: kv)
  with r(1) key show ?case by (simp add: kv)
qed

lemma serializeDocterark_returns:
  assumes "scannable doc"
  shows "\<exists>flat. serializeDocterark doc maxDepth = Inr flat \<and> set flat \<subseteq> set doc"
proof -
  from assms have sh: "\<not> obj_has doc ''hasOwnProperty''"
    and keys: "\<forall>kv \<in> set doc. fst kv \<noteq> ''__proto__''"
    by (auto simp: scannable_def)
  from serializeterark_loop_returns [OF keys, of "[]"] sh show ?thesis
    by (simp add: serializeDocterark_def serializeterark_def)
qed

lemma serializeAValue_returns:
  "proto_free value \<Longrightarrow> (\<exists>kvs. value = JObj kvs) \<Longrightarrow>
   \<exists>r. serializeAValue value maxDepth pararesult = Inr r"
  "\<forall>kv \<in> set props. fst kv \<noteq> ''__proto__'' \<and> proto_free (snd kv) \<Longrightarrow>
   \<exists>r. serializeAValue_loop props maxDepth pararesult = Inr r"
proof (induction "value" maxDepth pararesult and props maxDepth pararesult
       rule: serializeAValue_serializeAValue_loop.induct)
  case (1 "value" maxDepth pararesult)
  from "1.prems" have "\<forall>kv \<in> set (for_in value). fst kv \<noteq> ''__proto__'' \<and> proto_free (snd kv)"
    by auto
  from "1.IH" [OF this] show ?case by simp
next
  case (2 maxDepth pararesult)
  then show ?case by simp
next
  case (3 key tempv rest maxDepth pararesult)
  from "3.prems" have key: "key \<noteq> ''__proto__''" and val: "proto_free tempv"
    and rest: "\<forall>kv \<in> set rest. fst kv \<noteq> ''__proto__'' \<and> proto_free (snd kv)"
    by simp_all
  show ?case
  proof (cases "varietyTypeOf tempv = ''Object'' \<and> maxDepth > 1")
    case True
    then have obj: "\<exists>kvs. tempv = JObj kvs" by (simp add: varietyTypeOf_Object)
    from "3.IH"(1) [OF key refl True val obj] obtain sub where
      sub: "serializeAValue tempv (maxDepth - 1) [] = Inr sub"
      by blast
    from "3.IH"(2) [OF key refl True sub rest] True key sub show ?thesis
      by (simp add: Let_def)
  next
    case False
    from "3.IH"(3) [OF key refl False rest] False key show ?thesis
      by (auto simp: Let_def)
  qed
qed

lemma unreserved_put:
  assumes "unreserved result" and "\<not> reserved key"
    and "list_all (\<lambda>t. \<not> reserved (fst t)) tags"
  shows "unreserved (obj_put result key tags)"
proof -
  have "\<not> reserved (fst kt) \<and> list_all (\<lambda>t. \<not> reserved (fst t)) (snd kt)"
    if "kt \<in> set (obj_put result key tags)" for kt
  proof -
    from that set_obj_put [of result key tags]
    consider "kt = (key, tags)" | "kt \<in> set result" by blast
    then show ?thesis
    proof cases
      case 1
      with assms(2,3) show ?thesis by simp
    next
      case 2
      with assms(1) show ?thesis by (simp add: unreserved_def list_all_iff)
    qed
  qed
  then show ?thesis by (simp add: unreserved_def list_all_iff)
qed

lemma tags_put:
  assumes "list_all (\<lambda>t. \<not> reserved (fst t)) tags" and "\<not> reserved type"
  shows "list_all (\<lambda>t. \<not> reserved (fst t)) (obj_put tags type x)"
  using assms set_obj_put [of tags type x] by (auto simp: list_all_iff)

lemma assign_tag_returns:
  assumes "unreserved result" and "key \<noteq> ''__proto__''" and "\<not> reserved type"
  shows "\<exists>result2.
           assign_tag (if js_get result key = Undefined then obj_put result key [] else result)
             key type x = Inr result2
           \<and> unreserved result2"
proof (cases rule: js_get_cases [of result key])
  case (own tags)
  from own(1) have "(key, tags) \<in> set result" by (rule obj_get_mem)
  with assms(1) have k: "\<not> reserved key" and t: "list_all (\<lambda>t. \<not> reserved (fst t)) tags"
    by (auto simp: unreserved_def list_all_iff)
  from unreserved_put [OF assms(1) k tags_put [OF t assms(3)]] own(2) show ?thesis
    by (simp add: assign_tag_def)
next
  case proto
  with assms(2) show ?thesis by simp
next
  case member
  with assms(1) show ?thesis by (simp add: assign_tag_def)
next
  case undefined
  have e: "list_all (\<lambda>t. \<not> reserved (fst t)) ([] :: (string \<times> 'a) list)" by simp
  have own: "js_get (obj_put result key []) key = Own []" by (simp add: js_get_def)
  have "unreserved (obj_put (obj_put result key []) key (obj_put [] type x))"
    by (intro unreserved_put tags_put assms(1,3) undefined(2) e)
  with undefined(3) own show ?thesis by (simp add: assign_tag_def)
qed

lemma analyse_loop_returns:
  "\<forall>kv \<in> set document. fst kv \<noteq> ''__proto__'' \<and> proto_free (snd kv) \<Longrightarrow>
   unreserved result \<Longrightarrow>
   \<exists>result' recurresult'.
      analyse_loop document maxDepth result recurresult = Inr (result', recurresult')
      \<and> unreserved result'"
proof (induction document arbitrary: result recurresult)
  case Nil
  then show ?case by simp
next
  case (Cons kv document)
  obtain key0 v where kv: "kv = (key0, v)" by (cases kv)
  let ?key = "replace_dot_digits key0"
  let ?result1 = "if js_get result ?key = Undefined then obj_put result ?key [] else result"
  from Cons.prems(1) have key0: "key0 \<noteq> ''__proto__''" and val: "proto_free v"
    and rest: "\<forall>kv \<in> set document. fst kv \<noteq> ''__proto__'' \<and> proto_free (snd kv)"
    by (simp_all add: kv)
  from key0 have key: "?key \<noteq> ''__proto__''" by (rule replace_dot_digits_proto)
  show ?case
  proof (cases "varietyTypeOf v = ''Object''")
    case True
    then have "\<exists>kvs. v = JObj kvs" by (rule varietyTypeOf_Object)
    from serializeAValue_returns(1) [OF val this] obtain rr where
      rr: "serializeAValue v maxDepth recurresult = Inr rr"
      by blast
    from assign_tag_returns [OF Cons.prems(2) key varietyTypeOf_unreserved] obtain result2 where
      r2: "assign_tag ?result1 ?key (varietyTypeOf v) SRecurresult = Inr result2"
          "unreserved result2"
      by blast
    from Cons.IH [OF rest r2(2), of rr] True rr r2(1) show ?thesis
      by (simp add: kv Let_def)
  next
    case False
    from assign_tag_returns [OF Cons.prems(2) key varietyTypeOf_unreserved] obtain result2 where
      r2: "assign_tag ?result1 ?key (varietyTypeOf v) STrue = Inr result2"
          "unreserved result2"
      by blast
    from Cons.IH [OF rest r2(2), of recurresult] False r2(1) show ?thesis
      by (simp add: kv Let_def)
  qed
qed

lemma docResultterark_returns:
  assumes "scannable doc"
  shows "\<exists>r. docResultterark maxDepth doc = Inr r \<and> unreserved r"
proof -
  from serializeDocterark_returns [OF assms] obtain flat where
    flat: "serializeDocterark doc maxDepth = Inr flat" "set flat \<subseteq> set doc"
    by blast
  from assms have "\<forall>kv \<in> set doc. fst kv \<noteq> ''__proto__'' \<and> proto_free (snd kv)"
    by (auto simp: scannable_def)
  with flat(2) have "\<forall>kv \<in> set flat. fst kv \<noteq> ''__proto__'' \<and> proto_free (snd kv)"
    by blast
  moreover have "unreserved ([] :: slot obj obj)" by (simp add: unreserved_def)
  ultimately obtain result recurresult where
    loop: "analyse_loop flat maxDepth [] [] = Inr (result, recurresult)" "unreserved result"
    using analyse_loop_returns [of flat "[]" maxDepth "[]"] by blast
  let ?f = "\<lambda>(key, tags). (key, map (\<lambda>(type, s). (type, deref recurresult s)) tags)"
  have "unreserved (map ?f result)"
    using loop(2) by (fastforce simp: unreserved_def list_all_iff)
  with flat(1) loop(1) show ?thesis
    by (simp add: docResultterark_def analyseDocumentterark_def)
qed

lemma merge_types_returns:
  "list_all (\<lambda>t. \<not> reserved t) ts \<Longrightarrow> \<exists>counts'. merge_types ts counts = Inr counts'"
proof (induction ts arbitrary: counts)
  case Nil
  then show ?case by simp
next
  case (Cons t ts)
  from Cons.prems have t: "\<not> reserved t" and rest: "list_all (\<lambda>t. \<not> reserved t) ts"
    by simp_all
  show ?case
  proof (cases rule: js_get_cases [of counts t])
    case (own n)
    with Cons.IH [OF rest] show ?thesis by simp
  next
    case proto
    with t show ?thesis by (simp add: reserved_def)
  next
    case member
    with t show ?thesis by (simp add: reserved_def)
  next
    case undefined
    with Cons.IH [OF rest] show ?thesis by simp
  qed
qed

lemma mergeDocumentterark_returns:
  "unreserved r \<Longrightarrow> \<exists>acc'. mergeDocumentterark r acc = Inr acc'"
proof (induction r arbitrary: acc)
  case Nil
  then show ?case by simp
next
  case (Cons kt r)
  obtain key tags where kt: "kt = (key, tags)" by (cases kt)
  from Cons.prems have key: "\<not> reserved key"
    and tags: "list_all (\<lambda>t. \<not> reserved t) (map fst tags)" and rest: "unreserved r"
    by (simp_all add: unreserved_def kt list_all_iff)
  note IH = Cons.IH [OF rest]
  show ?case
  proof (cases rule: js_get_cases [of acc key])
    case (own existing)
    from merge_types_returns [OF tags] obtain counts where
      "merge_types (map fst tags) (types existing) = Inr counts"
      by blast
    with own(2) IH show ?thesis by (simp add: kt)
  next
    case proto
    with key show ?thesis by (simp add: reserved_def)
  next
    case member
    with key show ?thesis by (simp add: reserved_def)
  next
    case undefined
    with IH show ?thesis by (simp add: kt Let_def)
  qed
qed

lemma scan_returns:
  "\<forall>doc \<in> set docs. scannable doc \<Longrightarrow>
   \<exists>acc'. cursor_reduce (reduceDocumentsterark maxDepth) acc docs = Inr acc'"
proof (induction docs arbitrary: acc)
  case Nil
  then show ?case by simp
next
  case (Cons doc docs)
  from Cons.prems have doc: "scannable doc" and rest: "\<forall>doc \<in> set docs. scannable doc"
    by simp_all
  from docResultterark_returns [OF doc] obtain r where
    r: "docResultterark maxDepth doc = Inr r" "unreserved r"
    by blast
  from mergeDocumentterark_returns [OF r(2)] obtain acc1 where
    "mergeDocumentterark r acc = Inr acc1"
    by blast
  with r(1) have "reduceDocumentsterark maxDepth acc doc = Inr acc1"
    by (simp add: reduceDocumentsterark_def)
  with Cons.IH [OF rest, of acc1] show ?case by simp
qed





section \<open>The aggregate of a scan is regular\<close>

text \<open>
  The hypotheses under which the converter is shown to run to its end hold of every
  aggregate that a scan of scannable documents builds from the empty one.
\<close>

lemma obj_put_single: "obj_put [] k v = [(k, v)]"
  by (simp add: obj_put_def obj_has_def)

lemma regular_put:
  assumes "regular (MTree acc)" and "key \<noteq> ''__proto__''" and "\<forall>tm \<in> set tags. regular (snd tm)"
  shows "regular (MTree (obj_put acc key tags))"
proof -
  from assms(1) have ord: "js_ordered (map fst (obj_put acc key tags))"
    by (simp add: js_ordered_put)
  have "k \<noteq> ''__proto__'' \<and> (\<forall>(t, m) \<in> set ts. regular m)"
    if "(k, ts) \<in> set (obj_put acc key tags)" for k ts
  proof -
    from that set_obj_put [of acc key tags]
    consider "(k, ts) = (key, tags)" | "(k, ts) \<in> set acc" by blast
    then show ?thesis
    proof cases
      case 1
      with assms(2,3) show ?thesis by auto
    next
      case 2
      with assms(1) show ?thesis by auto
    qed
  qed
  then have "\<forall>(k, ts) \<in> set (obj_put acc key tags).
               k \<noteq> ''__proto__'' \<and> (\<forall>(t, m) \<in> set ts. regular m)"
    by blast
  with ord show ?thesis by simp
qed

lemma serializeAValue_regular:
  "serializeAValue value maxDepth pararesult = Inr r \<Longrightarrow> regular (MTree pararesult) \<Longrightarrow>
   regular (MTree r)"
  "serializeAValue_loop props maxDepth pararesult = Inr r \<Longrightarrow> regular (MTree pararesult) \<Longrightarrow>
   regular (MTree r)"
proof (induction "value" maxDepth pararesult and props maxDepth pararesult
       arbitrary: r and r rule: serializeAValue_serializeAValue_loop.induct)
  case (1 "value" maxDepth pararesult)
  from "1.IH" [of r] "1.prems" show ?case by simp
next
  case (2 maxDepth pararesult)
  then show ?case by simp
next
  case (3 key tempv rest maxDepth pararesult)
  from "3.prems"(1) have key: "key \<noteq> ''__proto__''" by (auto split: if_splits)
  show ?case
  proof (cases "varietyTypeOf tempv = ''Object'' \<and> maxDepth > 1")
    case True
    with "3.prems"(1) key obtain sub where
      sub: "serializeAValue tempv (maxDepth - 1) [] = Inr sub"
      and loop: "serializeAValue_loop rest maxDepth
                   (obj_put pararesult key (obj_put [] (varietyTypeOf tempv) (MTree sub))) = Inr r"
      by (auto simp: Let_def split: sum.splits)
    have "regular (MTree [])" by simp
    from "3.IH"(1) [OF key refl True sub this] have "regular (MTree sub)" .
    then have "regular (MTree (obj_put pararesult key (obj_put [] (varietyTypeOf tempv) (MTree sub))))"
      by (intro regular_put "3.prems"(2) key) (simp add: obj_put_single)
    from "3.IH"(2) [OF key refl True sub loop this] show ?thesis .
  next
    case False
    with "3.prems"(1) key have
      loop: "serializeAValue_loop rest maxDepth
               (obj_put pararesult key (obj_put [] (varietyTypeOf tempv) MTrue)) = Inr r"
      by (auto simp: Let_def)
    have "regular (MTree (obj_put pararesult key (obj_put [] (varietyTypeOf tempv) MTrue)))"
      by (intro regular_put "3.prems"(2) key) (simp add: obj_put_single)
    from "3.IH"(3) [OF key refl False loop this] show ?thesis .
  qed
qed

lemma assign_tag_tagged:
  assumes "tagged result"
    and "assign_tag (if js_get result key = Undefined then obj_put result key [] else result)
           key type x = Inr result2"
  shows "tagged result2"
proof -
  have step: "tagged (obj_put res key (obj_put tags type x))"
    if "tagged res" "distinct (map fst tags)" for res :: "'a obj obj" and tags
    using that by (auto simp: tagged_def distinct_obj_put obj_put_not_Nil)
  show ?thesis
  proof (cases rule: js_get_cases [of result key])
    case (own tags)
    with assms(1) have "distinct (map fst tags)" by (auto simp: tagged_def)
    from step [OF assms(1) this] own(2) assms(2) show ?thesis
      by (simp add: assign_tag_def)
  next
    case proto
    with assms(2) show ?thesis by (simp add: assign_tag_def)
  next
    case member
    with assms show ?thesis by (simp add: assign_tag_def)
  next
    case undefined
    have "tagged (obj_put (obj_put result key []) key (obj_put [] type x))"
      using assms(1) by (auto simp: tagged_def distinct_obj_put obj_put_not_Nil)
    with undefined(3) assms(2) show ?thesis
      by (simp add: assign_tag_def js_get_def)
  qed
qed

lemma analyse_loop_regular:
  "analyse_loop document maxDepth result recurresult = Inr (result', recurresult') \<Longrightarrow>
   tagged result \<Longrightarrow> regular (MTree recurresult) \<Longrightarrow>
   tagged result' \<and> regular (MTree recurresult')"
proof (induction document arbitrary: result recurresult)
  case Nil
  then show ?case by simp
next
  case (Cons kv document)
  obtain key0 v where kv: "kv = (key0, v)" by (cases kv)
  let ?key = "replace_dot_digits key0"
  let ?result1 = "if js_get result ?key = Undefined then obj_put result ?key [] else result"
  show ?case
  proof (cases "varietyTypeOf v = ''Object''")
    case True
    with Cons.prems(1) obtain rr result2 where
      rr: "serializeAValue v maxDepth recurresult = Inr rr"
      and r2: "assign_tag ?result1 ?key (varietyTypeOf v) SRecurresult = Inr result2"
      and rest: "analyse_loop document maxDepth result2 rr = Inr (result', recurresult')"
      by (auto simp: kv Let_def split: sum.splits)
    from Cons.IH [OF rest assign_tag_tagged [OF Cons.prems(2) r2]
                    serializeAValue_regular(1) [OF rr Cons.prems(3)]]
    show ?thesis .
  next
    case False
    with Cons.prems(1) obtain result2 where
      r2: "assign_tag ?result1 ?key (varietyTypeOf v) STrue = Inr result2"
      and rest: "analyse_loop document maxDepth result2 recurresult = Inr (result', recurresult')"
      by (auto simp: kv Let_def split: sum.splits)
    from Cons.IH [OF rest assign_tag_tagged [OF Cons.prems(2) r2] Cons.prems(3)]
    show ?thesis .
  qed
qed

lemma docResultterark_regular:
  assumes "docResultterark maxDepth doc = Inr r"
  shows "\<forall>kt \<in> set r. snd kt \<noteq> [] \<and> distinct (map fst (snd kt))
           \<and> (\<forall>tm \<in> set (snd kt). regular (snd tm))"
proof -
  from assms obtain flat result recurresult where
    loop: "analyse_loop flat maxDepth [] [] = Inr (result, recurresult)"
    and r: "r = map (\<lambda>(key, tags). (key, map (\<lambda>(type, s). (type, deref recurresult s)) tags)) result"
    by (auto simp: docResultterark_def analyseDocumentterark_def split: sum.splits)
  have "tagged ([] :: slot obj obj)" by (simp add: tagged_def)
  moreover have "regular (MTree [])" by simp
  ultimately have t: "tagged result" and reg: "regular (MTree recurresult)"
    using analyse_loop_regular [OF loop] by simp_all
  have "snd kt \<noteq> [] \<and> distinct (map fst (snd kt)) \<and> (\<forall>tm \<in> set (snd kt). regular (snd tm))"
    if "kt \<in> set r" for kt
  proof -
    from that r obtain key tags where
      mem: "(key, tags) \<in> set result"
      and kt: "kt = (key, map (\<lambda>(type, s). (type, deref recurresult s)) tags)"
      by auto
    from t mem have tags: "tags \<noteq> []" "distinct (map fst tags)"
      by (auto simp: tagged_def dest: obj_get_distinct)
    have names: "map (fst \<circ> (\<lambda>(type, s). (type, deref recurresult s))) tags = map fst tags"
      by (induction tags) auto
    have "regular (deref recurresult s)" for s
      using reg by (cases s) (simp_all add: deref_def)
    then have regs: "\<forall>tm \<in> set (map (\<lambda>(type, s). (type, deref recurresult s)) tags). regular (snd tm)"
      by auto
    have d: "distinct (map fst (map (\<lambda>(type, s). (type, deref recurresult s)) tags))"
      by (simp only: map_map names tags(2))
    have ne: "map (\<lambda>(type, s). (type, deref recurresult s)) tags \<noteq> []"
      using tags(1) by simp
    show ?thesis unfolding kt snd_conv using ne d regs by blast
  qed
  then show ?thesis by blast
qed

lemma merge_types_has:
  "merge_types ts counts = Inr counts' \<Longrightarrow> obj_has counts t \<Longrightarrow> obj_has counts' t"
proof (induction ts arbitrary: counts)
  case Nil
  then show ?case by simp
next
  case (Cons type ts)
  show ?case
  proof (cases rule: js_get_cases [of counts type])
    case (own n)
    with Cons.prems Cons.IH [of "obj_put counts type (n + 1)"] show ?thesis by simp
  next
    case proto
    with Cons.prems Cons.IH [of counts] show ?thesis by simp
  next
    case member
    with Cons.prems show ?thesis by simp
  next
    case undefined
    with Cons.prems Cons.IH [of "obj_put counts type 1"] show ?thesis by simp
  qed
qed

lemma new_types_has:
  "obj_has (new_types ts) t \<longleftrightarrow> t \<in> set ts \<and> t \<noteq> ''__proto__''"
proof -
  have "obj_has (fold (\<lambda>newType types. if newType = ''__proto__'' then types
                          else obj_put types newType (1 :: nat)) ts acc) t
        \<longleftrightarrow> obj_has acc t \<or> (t \<in> set ts \<and> t \<noteq> ''__proto__'')" for acc
    by (induction ts arbitrary: acc) auto
  then show ?thesis by (simp add: new_types_def)
qed

lemma not_only_Object:
  assumes "ks \<noteq> []" and "distinct ks" and "ks \<noteq> [''Object'']"
  shows "\<exists>t \<in> set ks. t \<noteq> ''Object''"
proof (rule ccontr)
  assume "\<not> (\<exists>t \<in> set ks. t \<noteq> ''Object'')"
  then have all: "\<forall>t \<in> set ks. t = ''Object''" by blast
  from assms(1) obtain k ks' where ks: "ks = k # ks'" by (cases ks) auto
  with all have k: "k = ''Object''" by simp
  have "ks' = []"
  proof (cases ks')
    case Nil
    then show ?thesis .
  next
    case (Cons k' ks'')
    with all ks have "k' = ''Object''" by simp
    with assms(2) ks k Cons show ?thesis by simp
  qed
  with ks k assms(3) show False by simp
qed

lemma scanned_put:
  assumes "scanned acc" and "key \<noteq> ''__proto__''" and "sound_entry e"
    and "\<forall>v. value' e = Some v \<longrightarrow> (\<forall>tm \<in> set v. regular (snd tm))"
  shows "scanned (obj_put acc key e)"
proof -
  have "fst ke \<noteq> ''__proto__'' \<and> sound_entry (snd ke)
        \<and> (\<forall>v. value' (snd ke) = Some v \<longrightarrow> (\<forall>tm \<in> set v. regular (snd tm)))"
    if "ke \<in> set (obj_put acc key e)" for ke
  proof -
    from that set_obj_put [of acc key e] consider "ke = (key, e)" | "ke \<in> set acc" by blast
    then show ?thesis
    proof cases
      case 1
      with assms(2,3,4) show ?thesis by simp
    next
      case 2
      with assms(1) show ?thesis by (simp add: scanned_def)
    qed
  qed
  moreover from assms(1) have "distinct (map fst (obj_put acc key e))"
    by (simp add: scanned_def distinct_obj_put)
  ultimately show ?thesis by (simp add: scanned_def)
qed

lemma mergeDocumentterark_scanned:
  "mergeDocumentterark r acc = Inr acc' \<Longrightarrow> scanned acc \<Longrightarrow>
   \<forall>kt \<in> set r. \<not> reserved (fst kt) \<and> snd kt \<noteq> [] \<and> distinct (map fst (snd kt))
       \<and> (\<forall>tm \<in> set (snd kt). \<not> reserved (fst tm) \<and> regular (snd tm)) \<Longrightarrow>
   scanned acc'"
proof (induction r arbitrary: acc)
  case Nil
  then show ?case by simp
next
  case (Cons kt r)
  obtain key tags where kt: "kt = (key, tags)" by (cases kt)
  from Cons.prems(3) have key: "\<not> reserved key" and tags: "tags \<noteq> []" "distinct (map fst tags)"
    and each: "\<forall>tm \<in> set tags. \<not> reserved (fst tm) \<and> regular (snd tm)"
    and rest: "\<forall>kt \<in> set r. \<not> reserved (fst kt) \<and> snd kt \<noteq> [] \<and> distinct (map fst (snd kt))
       \<and> (\<forall>tm \<in> set (snd kt). \<not> reserved (fst tm) \<and> regular (snd tm))"
    by (simp_all add: kt)
  from key have np: "key \<noteq> ''__proto__''" by (auto simp: reserved_def)
  show ?case
  proof (cases rule: js_get_cases [of acc key])
    case (own existing)
    with Cons.prems(1) obtain counts where
      counts: "merge_types (map fst tags) (types existing) = Inr counts"
      and run: "mergeDocumentterark r
                  (obj_put acc key (existing\<lparr>types := counts,
                      totalOccurrences := totalOccurrences existing + 1\<rparr>)) = Inr acc'"
      by (auto simp: kt split: sum.splits)
    from own(1) have "(key, existing) \<in> set acc" by (rule obj_get_mem)
    with Cons.prems(2) have ex: "sound_entry existing"
      "\<forall>v. value' existing = Some v \<longrightarrow> (\<forall>tm \<in> set v. regular (snd tm))"
      by (auto simp: scanned_def)
    from ex(1) have "sound_entry (existing\<lparr>types := counts,
                      totalOccurrences := totalOccurrences existing + 1\<rparr>)"
      by (auto simp: sound_entry_def intro: merge_types_has [OF counts])
    from Cons.IH [OF run scanned_put [OF Cons.prems(2) np this] rest] ex(2)
    show ?thesis by simp
  next
    case proto
    with key show ?thesis by (simp add: reserved_def)
  next
    case member
    with key show ?thesis by (simp add: reserved_def)
  next
    case undefined
    show ?thesis
    proof (cases "js_join '','' (map fst tags) = ''Object''")
      case True
      let ?new = "\<lparr>types = new_types (map fst tags), totalOccurrences = 1, value' = Some tags\<rparr>"
      from Cons.prems(1) undefined(3) True
      have run: "mergeDocumentterark r (obj_put acc key ?new) = Inr acc'"
        by (simp add: kt Let_def)
      have "sound_entry ?new" by (simp add: sound_entry_def)
      from Cons.IH [OF run scanned_put [OF Cons.prems(2) np this] rest] each
      show ?thesis by simp
    next
      case False
      let ?new = "\<lparr>types = new_types (map fst tags), totalOccurrences = 1, value' = None\<rparr>"
      from Cons.prems(1) undefined(3) False
      have run: "mergeDocumentterark r (obj_put acc key ?new) = Inr acc'"
        by (simp add: kt Let_def)
      from False have "map fst tags \<noteq> [''Object'']" by (simp add: js_join_comma_eq_Object)
      from not_only_Object [OF _ tags(2) this] tags(1)
      obtain t where t: "t \<in> set (map fst tags)" "t \<noteq> ''Object''" by auto
      with each have "t \<noteq> ''__proto__''" by (auto simp: reserved_def)
      with t have "sound_entry ?new" by (auto simp: sound_entry_def new_types_has)
      from Cons.IH [OF run scanned_put [OF Cons.prems(2) np this] rest]
      show ?thesis by simp
    qed
  qed
qed

lemma scan_scanned:
  "cursor_reduce (reduceDocumentsterark maxDepth) acc docs = Inr acc' \<Longrightarrow> scanned acc \<Longrightarrow>
   \<forall>doc \<in> set docs. scannable doc \<Longrightarrow> scanned acc'"
proof (induction docs arbitrary: acc)
  case Nil
  then show ?case by simp
next
  case (Cons doc docs)
  from Cons.prems(1) obtain r acc1 where r: "docResultterark maxDepth doc = Inr r"
    and m: "mergeDocumentterark r acc = Inr acc1"
    and rest: "cursor_reduce (reduceDocumentsterark maxDepth) acc1 docs = Inr acc'"
    by (rule reduceDocumentsterark_Inr)
  from Cons.prems(3) have "scannable doc" by simp
  from docResultterark_returns [OF this, of maxDepth] r have "unreserved r" by simp
  with docResultterark_regular [OF r]
  have "\<forall>kt \<in> set r. \<not> reserved (fst kt) \<and> snd kt \<noteq> [] \<and> distinct (map fst (snd kt))
       \<and> (\<forall>tm \<in> set (snd kt). \<not> reserved (fst tm) \<and> regular (snd tm))"
    by (auto simp: unreserved_def list_all_iff)
  from mergeDocumentterark_scanned [OF m Cons.prems(2) this] have "scanned acc1" .
  from Cons.IH [OF rest this] Cons.prems(3) show ?case by simp
qed

lemma scanned_regular:
  assumes "scanned acc"
  shows "regular_aggregate acc" and "distinct (map fst acc)"
proof -
  show "distinct (map fst acc)" using assms by (simp add: scanned_def)
  have "fst ke \<noteq> ''__proto__'' \<and> regular_entry (snd ke)" if "ke \<in> set acc" for ke
  proof -
    from assms that have np: "fst ke \<noteq> ''__proto__''" and s: "sound_entry (snd ke)"
      and reg: "\<forall>v. value' (snd ke) = Some v \<longrightarrow> (\<forall>tm \<in> set v. regular (snd tm))"
      by (auto simp: scanned_def)
    have "regular_entry (snd ke)"
      unfolding regular_entry_def
    proof
      assume tk: "typeKeys (snd ke) = ''Object''"
      then have "map fst (types (snd ke)) = [''Object'']"
        by (simp add: typeKeys_def js_join_comma_eq_Object)
      then have "t = ''Object''" if "obj_has (types (snd ke)) t" for t
        using that by (auto simp: obj_has_def map_of_eq_None_iff)
      with s obtain v where v: "value' (snd ke) = Some v" by (auto simp: sound_entry_def)
      have "regular m" if "obj_get v ''Object'' = Some m" for m
        using reg v obj_get_mem [OF that] by fastforce
      with v show "case value' (snd ke) of None \<Rightarrow> False
                   | Some v \<Rightarrow> (case obj_get v ''Object'' of None \<Rightarrow> True | Some m \<Rightarrow> regular m)"
        by (simp split: option.splits)
    qed
    with np show ?thesis by simp
  qed
  then show "regular_aggregate acc" by (simp add: regular_aggregate_def list_all_iff)
qed

lemma scan_regular:
  assumes "\<forall>doc \<in> set docs. scannable doc"
  shows "\<exists>agg. cursor_reduce (reduceDocumentsterark maxDepth) [] docs = Inr agg
           \<and> regular_aggregate agg \<and> distinct (map fst agg)"
proof -
  from scan_returns [OF assms] obtain agg where
    agg: "cursor_reduce (reduceDocumentsterark maxDepth) [] docs = Inr agg"
    by blast
  have "scanned ([] :: entry obj)" by (simp add: scanned_def)
  from scan_scanned [OF agg this assms] have "scanned agg" .
  with agg scanned_regular [of agg] show ?thesis by blast
qed

text \<open>
  So the converter runs to its end on the aggregate of every scan of scannable
  documents, and its RowSchema ends with the reserved entry.
\<close>

lemma schema_of_scan_returns:
  assumes "\<forall>doc \<in> set docs. scannable doc"
  shows "\<exists>cols nss. schema_of_scan maxDepth docs = Inr (cols, nss)
           \<and> obj_get cols ''$$'' = Some carbin"
proof -
  from scan_regular [OF assms] obtain agg where
    agg: "cursor_reduce (reduceDocumentsterark maxDepth) [] docs = Inr agg"
    and reg: "regular_aggregate agg"
    by blast
  from convertSchema_result [OF reg] agg show ?thesis
    by (simp add: schema_of_scan_def)
qed

section \<open>Properties of the target validation\<close>




section \<open>Runs of the script\<close>

text \<open>
  A run that passes the validation, with a plain marker, whose flat fold runs to its
  end and whose documents are scannable, prints its Result Document after both folds,
  and the RowSchema in it ends with the reserved entry.
\<close>

lemma main_prints:
  assumes "validate sh = None" and "regex_plain (cfg_arrayEscape sh)"
    and "cursor_reduce (reduceDocuments (cfg_arrayEscape sh) (cfg_maxDepth sh)
           (excludeSubkeys_set (cfg_excludeSubkeys sh))) [] (cursor_documents sh)
         = Inr interimResults"
    and "\<forall>doc \<in> set (cursor_documents sh). scannable doc"
  shows "\<exists>r. main sh = ([Fold, Fold, Print r], None)
           \<and> CheckMongoType r \<and> obj_get (RowSchema r) ''$$'' = Some carbin"
proof -
  from scan_regular [OF assms(4), of "cfg_maxDepth sh"] obtain agg where
    agg: "cursor_reduce (reduceDocumentsterark (cfg_maxDepth sh)) [] (cursor_documents sh)
          = Inr agg"
    and reg: "regular_aggregate agg"
    by blast
  from convertSchema_result [OF reg, of "length (cursor_documents sh)" interimResults]
  obtain cols nss where
    res: "convertSchema agg (length (cursor_documents sh)) [] interimResults = Inr (cols, nss)"
    and sentinel: "obj_get cols ''$$'' = Some carbin"
    by simp
  with assms(1,2,3) agg show ?thesis by (simp add: main_def Let_def)
qed


text \<open>
  A run over a collection of two documents prints the Result Document after both
  folds. A run over a document that has a field named \<open>hasOwnProperty\<close> ends in the
  first fold with a \<open>TypeError\<close>, and nothing is printed.
\<close>

lemma main_example:
  "main \<lparr>server = [(''test'', [(''users'',
             [[(''_id'', JObjectId ''a1''), (''name'', JStr ''x''), (''home'', JObj [(''city'', JStr ''y'')])],
              [(''_id'', JObjectId ''a2''), (''name'', JStr ''z'')]])])],
          listDatabases_answers = True, db_name = ''test'', collection = Some ''users'',
          cfg_maxDepth = 99, cfg_arrayEscape = ''XX'', cfg_excludeSubkeys = [],
          cursor_documents =
             [[(''_id'', JObjectId ''a1''), (''name'', JStr ''x''), (''home'', JObj [(''city'', JStr ''y'')])],
              [(''_id'', JObjectId ''a2''), (''name'', JStr ''z'')]],
          getIndexes = [\<lparr>ix_name = ''_id_'', ix_key = [(''_id'', DirNum 1)], ix_unique = JUndefined\<rparr>]\<rparr>
   = ([Fold, Fold,
       Print \<lparr>CheckMongoType = True,
              RowSchema =
                [(''_id'', Column (TStr ''Fixed'') (Some 12) (Some (TStr ''oid'')) None),
                 (''name'', Column (TStr ''StrZero'') None (Some (TStr ''string'')) None),
                 (''$$'', Column (TStr ''CarBin'') None None None)],
              TableIndex = Some [\<lparr>fields' = ''_id'', ordered = True, unique = True\<rparr>],
              NestedSchemaSet =
                Some [(''1'', \<lparr>columns =
                   [(''city'', Column (TStr ''StrZero'') None (Some (TStr ''string'')) None),
                    (''$$'', Column (TStr ''CarBin'') None None None)]\<rparr>)]\<rparr>],
      None)"
  by code_simp

lemma main_example_TypeError:
  "main \<lparr>server = [(''test'', [(''users'', [[(''hasOwnProperty'', JNum 1)]])])],
          listDatabases_answers = True, db_name = ''test'', collection = Some ''users'',
          cfg_maxDepth = 99, cfg_arrayEscape = ''XX'', cfg_excludeSubkeys = [],
          cursor_documents = [[(''hasOwnProperty'', JNum 1)]],
          getIndexes = []\<rparr>
   = ([Fold], Some TypeError)"
  by code_simp

section \<open>Properties of the Type Classifier\<close>

text \<open>
  C7. The classifier is a total function from values to type tags: it has no failing
  branch, every value gets one of eleven tags, and \<open>null\<close>, arrays, the undefined value,
  strings, numbers, \<open>Date\<close>, \<open>NumberLong\<close>, \<open>ObjectId\<close>, \<open>BinData\<close> and every other keyed
  record get the tags \<open>null\<close>, \<open>Array\<close>, \<open>undefined\<close>, \<open>String\<close>, \<open>Number\<close>, \<open>Date\<close>,
  \<open>NumberLong\<close>, \<open>ObjectId\<close>, \<open>BinData\<close> and \<open>Object\<close>.
\<close>

theorem varietyTypeOf_table:
  "varietyTypeOf JNull = ''null''
   \<and> varietyTypeOf (JArr xs) = ''Array''
   \<and> varietyTypeOf JUndefined = ''undefined''
   \<and> varietyTypeOf (JStr s) = ''String''
   \<and> varietyTypeOf (JNum x) = ''Number''
   \<and> varietyTypeOf (JDate t) = ''Date''
   \<and> varietyTypeOf (JNumberLong n) = ''NumberLong''
   \<and> varietyTypeOf (JObjectId h) = ''ObjectId''
   \<and> varietyTypeOf (JBinData st b) = ''BinData''
   \<and> varietyTypeOf (JObj kvs) = ''Object''
   \<and> varietyTypeOf v \<in> set [''undefined'', ''Boolean'', ''Number'', ''String'', ''Array'',
         ''null'', ''Date'', ''NumberLong'', ''ObjectId'', ''BinData'', ''Object'']"
  by (cases v) (simp_all add: varietyTypeOf_def js_toUpperCase_def)

end
